theory Spec2Isabelle
  imports Complex_Main
begin

section \<open>Samples, typed arrays and buffers\<close>

text \<open>
  A sample is a floating-point number of the buffer's own width, 32 bits or wider: a finite
  value, NaN, or one of the two infinities. The sign of zero is outside the model
  (\<open>Num 0\<close> stands for both zeros, which the strict comparison of the source does not tell
  apart). Narrowing to 32 bits is modelled where the code does it, in \<open>concat\<close>.
\<close>

datatype sample = Num real | NaN | PInf | NInf

text \<open>
  A channel is a fixed-length typed array, modelled as a list. Reading \<open>cData[i]\<close>
  outside the array gives \<open>undefined\<close> (\<open>None\<close>); storing \<open>undefined\<close>
  converts it to NaN; a store outside the array is dropped and never changes the length.
\<close>

definition rd :: "sample list \<Rightarrow> int \<Rightarrow> sample option" where
  "rd d i = (if 0 \<le> i \<and> i < int (length d) then Some (d ! nat i) else None)"

definition to_number :: "sample option \<Rightarrow> sample" where
  "to_number v = (case v of None \<Rightarrow> NaN | Some s \<Rightarrow> s)"

definition wr :: "sample list \<Rightarrow> int \<Rightarrow> sample option \<Rightarrow> sample list" where
  "wr d i v = (if 0 \<le> i \<and> i < int (length d) then d[nat i := to_number v] else d)"

text \<open>The strict inequality \<open>x !== y\<close> on what an array read can give.\<close>

definition strict_neq :: "sample option \<Rightarrow> sample option \<Rightarrow> bool" where
  "strict_neq x y =
     (case (x, y) of
        (None, None) \<Rightarrow> False
      | (Some a, Some b) \<Rightarrow> a = NaN \<or> b = NaN \<or> a \<noteq> b
      | _ \<Rightarrow> True)"

text \<open>\<open>x || 0\<close>: the falsy reads (\<open>undefined\<close>, NaN, zero) give 0.\<close>

definition or_zero :: "sample option \<Rightarrow> sample" where
  "or_zero v = (case v of None \<Rightarrow> Num 0 | Some NaN \<Rightarrow> Num 0 | Some s \<Rightarrow> s)"

text \<open>The remainder \<open>a % b\<close> of the source language truncates towards zero.\<close>

definition js_rem :: "int \<Rightarrow> int \<Rightarrow> int" where
  "js_rem a b = sgn a * (\<bar>a\<bar> mod \<bar>b\<bar>)"

text \<open>
  The buffer of the external \<open>audio-buffer\<close> package, as far as this module reads it:
  \<open>numberOfChannels\<close>, \<open>length\<close>, \<open>sampleRate\<close> and the channel arrays that
  \<open>getChannelData\<close> hands out.
\<close>

record buffer =
  numberOfChannels :: nat
  length_b :: nat
  sampleRate :: real
  chans :: "sample list list"

definition getChannelData :: "buffer \<Rightarrow> nat \<Rightarrow> sample list" where
  "getChannelData b c = chans b ! c"

definition setChannelData :: "buffer \<Rightarrow> nat \<Rightarrow> sample list \<Rightarrow> buffer" where
  "setChannelData b c d = b\<lparr>chans := (chans b)[c := d]\<rparr>"

text \<open>
  The invariant of the buffer contract: a positive number of channels, one array per
  channel, each of \<open>length\<close> samples.
\<close>

definition wf_buffer :: "buffer \<Rightarrow> bool" where
  "wf_buffer b \<longleftrightarrow>
     0 < numberOfChannels b \<and> length (chans b) = numberOfChannels b
     \<and> list_all (\<lambda>d. length d = length_b b) (chans b)"

text \<open>
  Modelled from the spec: the constructor \<open>new AudioBuffer(channels, data, sampleRate)\<close> of
  the external package, called with per-channel arrays: channel \<open>i\<close> of the new buffer
  holds exactly \<open>data[i]\<close>; its length is that of the arrays.
\<close>

definition AudioBuffer_data :: "nat \<Rightarrow> sample list list \<Rightarrow> real \<Rightarrow> buffer" where
  "AudioBuffer_data channels data rate =
     \<lparr>numberOfChannels = channels,
      length_b = (case data of [] \<Rightarrow> 0 | d # _ \<Rightarrow> length d),
      sampleRate = rate,
      chans = data\<rparr>"

text \<open>
  Modelled from the spec: the constructor called with a length only,
  \<open>new AudioBuffer(n)\<close>, gives a zero buffer of that length. The call passes neither a
  channel count nor a sample rate, so the ones the package falls back to are parameters
  of the model.
\<close>

record defaults =
  defaultChannels :: nat
  defaultRate :: real

definition AudioBuffer_length :: "defaults \<Rightarrow> int \<Rightarrow> buffer" where
  "AudioBuffer_length df n =
     \<lparr>numberOfChannels = defaultChannels df,
      length_b = nat n,
      sampleRate = defaultRate df,
      chans = replicate (defaultChannels df) (replicate (nat n) (Num 0))\<rparr>"

text \<open>Modelled from the spec: the copy constructor \<open>new AudioBuffer(buffer)\<close>, a deep clone.\<close>

definition clone :: "buffer \<Rightarrow> buffer" where
  "clone inBuffer = inBuffer"

section \<open>rotate\<close>

text \<open>
  The inner loop of \<open>rotate\<close>: \<open>srcData\<close> is the snapshot, \<open>cData\<close> the live array,
  \<open>idx = (offset + (offset + i < 0 ? l + i : i)) % l\<close>.
\<close>

definition rotate_idx :: "int \<Rightarrow> int \<Rightarrow> int \<Rightarrow> int" where
  "rotate_idx offset l i = js_rem (offset + (if offset + i < 0 then l + i else i)) l"

function rotate_loop :: "sample list \<Rightarrow> sample list \<Rightarrow> int \<Rightarrow> nat \<Rightarrow> sample list" where
  "rotate_loop srcData cData offset i =
     (if i < length cData
      then rotate_loop srcData
             (wr cData (rotate_idx offset (int (length cData)) (int i)) (rd srcData (int i)))
             offset (i + 1)
      else cData)"
  by pat_completeness auto
termination
  by (relation "measure (\<lambda>(s, c, off, i). length c - i)") (auto simp: wr_def)

definition rotate_channel :: "sample list \<Rightarrow> int \<Rightarrow> sample list" where
  "rotate_channel cData offset = rotate_loop cData cData offset 0"

function rotate_channels :: "buffer \<Rightarrow> int \<Rightarrow> nat \<Rightarrow> buffer" where
  "rotate_channels b offset channel =
     (if channel < numberOfChannels b
      then rotate_channels
             (setChannelData b channel (rotate_channel (getChannelData b channel) offset))
             offset (channel + 1)
      else b)"
  by pat_completeness auto
termination
  by (relation "measure (\<lambda>(b, off, c). numberOfChannels b - c)") (auto simp: setChannelData_def)

definition rotate_buf :: "buffer \<Rightarrow> int \<Rightarrow> buffer" where
  "rotate_buf b offset = rotate_channels b offset 0"

section \<open>shift\<close>

text \<open>
  The loop of the branch \<open>offset > 0\<close> is \<open>for (var i = cData.length - offset; i--;)\<close>: the
  test reads \<open>i\<close>, leaves when it is 0 and decrements it before the body. Nothing bounds it
  from below, so not returning is the value \<open>None\<close>.
\<close>

partial_function (option) shift_right_loop :: "sample list \<Rightarrow> int \<Rightarrow> int \<Rightarrow> sample list option" where
  "shift_right_loop cData offset i =
     (if i = 0 then Some cData
      else shift_right_loop (wr cData (i - 1 + offset) (rd cData (i - 1))) offset (i - 1))"

text \<open>The loop of the other branch: \<open>for (var i = -offset, l = cData.length - offset; i < l; i++)\<close>.\<close>

function shift_left_loop :: "sample list \<Rightarrow> int \<Rightarrow> int \<Rightarrow> int \<Rightarrow> sample list" where
  "shift_left_loop cData offset l i =
     (if i < l
      then shift_left_loop (wr cData (i + offset) (Some (or_zero (rd cData i)))) offset l (i + 1)
      else cData)"
  by pat_completeness auto
termination
  by (relation "measure (\<lambda>(c, off, l, i). nat (l - i))") auto

definition shift_channel :: "sample list \<Rightarrow> int \<Rightarrow> sample list option" where
  "shift_channel cData offset =
     (if offset > 0 then shift_right_loop cData offset (int (length cData) - offset)
      else Some (shift_left_loop cData offset (int (length cData) - offset) (- offset)))"

function shift_channels :: "buffer \<Rightarrow> int \<Rightarrow> nat \<Rightarrow> buffer option" where
  "shift_channels b offset channel =
     (if channel < numberOfChannels b
      then (case shift_channel (getChannelData b channel) offset of
              None \<Rightarrow> None
            | Some d \<Rightarrow> shift_channels (setChannelData b channel d) offset (channel + 1))
      else Some b)"
  by pat_completeness auto
termination
  by (relation "measure (\<lambda>(b, off, c). numberOfChannels b - c)") (auto simp: setChannelData_def)

definition shift :: "buffer \<Rightarrow> int \<Rightarrow> buffer option" where
  "shift b offset = shift_channels b offset 0"

section \<open>equal\<close>

text \<open>
  The two nested loops of the pairwise comparison. Each one leaves through
  \<open>return false\<close> at the first sample pair with \<open>dataA[i] !== dataB[i]\<close>; the model
  returns the place where that happens, and \<open>None\<close> when the loop runs to its end.
\<close>

function equal_samples :: "sample list \<Rightarrow> sample list \<Rightarrow> nat \<Rightarrow> nat option" where
  "equal_samples dataA dataB i =
     (if i < length dataA
      then (if strict_neq (rd dataA (int i)) (rd dataB (int i)) then Some i
            else equal_samples dataA dataB (i + 1))
      else None)"
  by pat_completeness auto
termination
  by (relation "measure (\<lambda>(a, b, i). length a - i)") auto

function equal_channels :: "buffer \<Rightarrow> buffer \<Rightarrow> nat \<Rightarrow> (nat \<times> nat) option" where
  "equal_channels bufferA bufferB channel =
     (if channel < numberOfChannels bufferA
      then (case equal_samples (getChannelData bufferA channel) (getChannelData bufferB channel) 0 of
              Some i \<Rightarrow> Some (channel, i)
            | None \<Rightarrow> equal_channels bufferA bufferB (channel + 1))
      else None)"
  by pat_completeness auto
termination
  by (relation "measure (\<lambda>(a, b, c). numberOfChannels a - c)") auto

definition equal2 :: "buffer \<Rightarrow> buffer \<Rightarrow> bool" where
  "equal2 bufferA bufferB =
     (if length_b bufferA \<noteq> length_b bufferB
         \<or> numberOfChannels bufferA \<noteq> numberOfChannels bufferB then False
      else equal_channels bufferA bufferB 0 = None)"

text \<open>The walk over more than two arguments: adjacent pairs, leaving at the first unequal one.\<close>

fun equal_walk :: "buffer list \<Rightarrow> bool" where
  "equal_walk (x # y # rest) = (if \<not> equal2 x y then False else equal_walk (y # rest))"
| "equal_walk _ = True"

text \<open>With fewer than two arguments \<open>bufferB\<close> is \<open>undefined\<close> and reading its length throws.\<close>

definition equal_buf :: "buffer list \<Rightarrow> bool option" where
  "equal_buf args =
     (if length args > 2 then Some (equal_walk args)
      else (case args of [bufferA, bufferB] \<Rightarrow> Some (equal2 bufferA bufferB) | _ \<Rightarrow> None))"

section \<open>fill and zero\<close>

text \<open>
  The second argument of \<open>fill\<close> is a function or a constant. A function is called with
  the buffer as receiver and with the sample read, the channel, the index and the channel
  array as they are at that moment.
\<close>

datatype filler =
  Fn "buffer \<Rightarrow> sample option \<Rightarrow> nat \<Rightarrow> nat \<Rightarrow> sample list \<Rightarrow> sample"
| Const sample

function fill_fn_loop ::
  "(buffer \<Rightarrow> sample option \<Rightarrow> nat \<Rightarrow> nat \<Rightarrow> sample list \<Rightarrow> sample)
     \<Rightarrow> buffer \<Rightarrow> nat \<Rightarrow> nat \<Rightarrow> nat \<Rightarrow> buffer" where
  "fill_fn_loop fn b channel l i =
     (if i < l
      then (let data = getChannelData b channel
            in fill_fn_loop fn
                 (setChannelData b channel
                    (wr data (int i) (Some (fn b (rd data (int i)) channel i data))))
                 channel l (i + 1))
      else b)"
  by pat_completeness auto
termination
  by (relation "measure (\<lambda>(f, b, c, l, i). l - i)") auto

text \<open>\<open>while (l--) data[l] = fn\<close>\<close>

fun fill_const_loop :: "sample list \<Rightarrow> nat \<Rightarrow> sample \<Rightarrow> sample list" where
  "fill_const_loop data 0 v = data"
| "fill_const_loop data (Suc l) v = fill_const_loop (wr data (int l) (Some v)) l v"

function fill_channels :: "filler \<Rightarrow> buffer \<Rightarrow> nat \<Rightarrow> nat \<Rightarrow> buffer" where
  "fill_channels fn b c channel =
     (if channel < c
      then fill_channels fn
             (case fn of
                Fn f \<Rightarrow> fill_fn_loop f b channel (length_b b) 0
              | Const v \<Rightarrow>
                  setChannelData b channel
                    (fill_const_loop (getChannelData b channel) (length_b b) v))
             c (channel + 1)
      else b)"
  by pat_completeness auto
termination
  by (relation "measure (\<lambda>(f, b, c, ch). c - ch)") auto



section \<open>slice\<close>

text \<open>
  The \<open>slice(start, end)\<close> of the language's arrays: a negative bound counts from the
  end, a bound outside the array is clamped, an omitted bound (\<open>None\<close>) is the start or
  the end of the array.
\<close>

definition slice_array :: "sample list \<Rightarrow> int option \<Rightarrow> int option \<Rightarrow> sample list" where
  "slice_array d start end =
     (let len = int (length d);
          relStart = (case start of None \<Rightarrow> 0 | Some s \<Rightarrow> s);
          k = (if relStart < 0 then max (len + relStart) 0 else min relStart len);
          relEnd = (case end of None \<Rightarrow> len | Some e \<Rightarrow> e);
          final = (if relEnd < 0 then max (len + relEnd) 0 else min relEnd len)
      in take (nat (final - k)) (drop (nat k) d))"

function slice_loop ::
  "buffer \<Rightarrow> int option \<Rightarrow> int option \<Rightarrow> nat \<Rightarrow> sample list list \<Rightarrow> sample list list" where
  "slice_loop b start end channel data =
     (if channel < numberOfChannels b
      then slice_loop b start end (channel + 1)
             (data @ [slice_array (getChannelData b channel) start end])
      else data)"
  by pat_completeness auto
termination
  by (relation "measure (\<lambda>(b, s, e, c, d). numberOfChannels b - c)") auto

definition slice :: "buffer \<Rightarrow> int option \<Rightarrow> int option \<Rightarrow> buffer" where
  "slice b start end =
     AudioBuffer_data (numberOfChannels b) (slice_loop b start end 0 []) (sampleRate b)"

section \<open>concat and resize\<close>

text \<open>
  The arrays that \<open>concat\<close> builds are \<open>Float32Array\<close>s: a value stored in one is
  rounded to the nearest 32-bit float, ties to the even significand; NaN and the infinities
  stay, and a value that rounds beyond the largest float becomes an infinity.
  \<open>float_exponent a\<close> is the exponent of \<open>a > 0\<close>, the integer \<open>e\<close> with
  \<open>2^e \<le> a < 2^(e+1)\<close>; below \<open>2^-126\<close> the spacing of the floats stays that of the
  subnormal range.
\<close>

function bit_length :: "int \<Rightarrow> int" where
  "bit_length n = (if n \<le> 0 then 0 else 1 + bit_length (n div 2))"
  by pat_completeness auto
termination
  by (relation "measure nat") auto

definition float_exponent :: "real \<Rightarrow> int" where
  "float_exponent a =
     (if 1 \<le> a then bit_length \<lfloor>a\<rfloor> - 1 else - bit_length (\<lceil>1 / a\<rceil> - 1))"

definition pow2 :: "int \<Rightarrow> real" where
  "pow2 k = (if 0 \<le> k then 2 ^ nat k else 1 / 2 ^ nat (- k))"

definition round_ties_even :: "real \<Rightarrow> int" where
  "round_ties_even y =
     (let f = \<lfloor>y\<rfloor>; d = y - of_int f
      in if d < 1 / 2 then f else if 1 / 2 < d then f + 1 else if even f then f else f + 1)"

definition fround :: "sample \<Rightarrow> sample" where
  "fround s =
     (case s of
        Num x \<Rightarrow>
          (if x = 0 then Num 0
           else (let q = pow2 (max (float_exponent \<bar>x\<bar>) (- 126) - 23);
                     y = of_int (round_ties_even (x / q)) * q
                 in if 2 ^ 128 \<le> y then PInf else if y \<le> - (2 ^ 128) then NInf else Num y))
      | _ \<Rightarrow> s)"

text \<open>
  \<open>target.set(source, offset)\<close> of a \<open>Float32Array\<close> stores the samples of \<open>source\<close>
  from \<open>offset\<close> on, each rounded to 32 bits, and throws a RangeError (\<open>None\<close>) when
  \<open>source\<close> does not fit.
\<close>

definition ta_set :: "sample list \<Rightarrow> sample list \<Rightarrow> nat \<Rightarrow> sample list option" where
  "ta_set target source offset =
     (if offset + length source > length target then None
      else Some (take offset target @ map fround source
                   @ drop (offset + length source) target))"

text \<open>
  The loop of the pairwise \<open>concat\<close>. \<open>channelData\<close> is a \<open>new Float32Array(length)\<close>,
  all zeros, and the two \<open>set\<close> calls store the channels of the inputs into it, narrowed
  to 32 bits.
\<close>

function concat_loop ::
  "buffer \<Rightarrow> buffer \<Rightarrow> nat \<Rightarrow> nat \<Rightarrow> nat \<Rightarrow> sample list list \<Rightarrow> sample list list option" where
  "concat_loop bufferA bufferB channels len channel data =
     (if channel < channels
      then (case (if channel < numberOfChannels bufferA
                  then ta_set (replicate len (Num 0)) (getChannelData bufferA channel) 0
                  else Some (replicate len (Num 0))) of
              None \<Rightarrow> None
            | Some channelData \<Rightarrow>
                (case (if channel < numberOfChannels bufferB
                       then ta_set channelData (getChannelData bufferB channel) (length_b bufferA)
                       else Some channelData) of
                   None \<Rightarrow> None
                 | Some channelData' \<Rightarrow>
                     concat_loop bufferA bufferB channels len (channel + 1)
                       (data @ [channelData'])))
      else Some data)"
  by pat_completeness auto
termination
  by (relation "measure (\<lambda>(a, b, cs, l, c, d). cs - c)") auto

definition concat2 :: "buffer \<Rightarrow> buffer \<Rightarrow> buffer option" where
  "concat2 bufferA bufferB =
     (let channels = max (numberOfChannels bufferA) (numberOfChannels bufferB);
          len = length_b bufferA + length_b bufferB;
          rate = max (sampleRate bufferA) (sampleRate bufferB)
      in case concat_loop bufferA bufferB channels len 0 [] of
           None \<Rightarrow> None
         | Some data \<Rightarrow> Some (AudioBuffer_data channels data rate))"

text \<open>The walk over more than two arguments: \<open>result = concat(result, arguments[i])\<close>.\<close>

fun concat_walk :: "buffer \<Rightarrow> buffer list \<Rightarrow> buffer option" where
  "concat_walk result [] = Some result"
| "concat_walk result (x # xs) =
     (case concat2 result x of None \<Rightarrow> None | Some r \<Rightarrow> concat_walk r xs)"

definition concat_buf :: "buffer list \<Rightarrow> buffer option" where
  "concat_buf args =
     (if length args > 2 then concat_walk (hd args) (tl args)
      else (case args of [bufferA, bufferB] \<Rightarrow> concat2 bufferA bufferB | _ \<Rightarrow> None))"

definition resize :: "defaults \<Rightarrow> buffer \<Rightarrow> int \<Rightarrow> buffer option" where
  "resize df b len =
     (if len < int (length_b b) then Some (slice b (Some 0) (Some len))
      else concat_buf [b, AudioBuffer_length df (len - int (length_b b))])"

section \<open>map, on a store of channel arrays\<close>

text \<open>
  \<open>map\<close> allocates: each call of the array's own \<open>map\<close> makes a new array. To tell a
  new array from an old one the channel arrays live in a store, a list of arrays addressed
  by position, where allocation appends; a buffer object holds the addresses of its channel
  arrays, and \<open>deref\<close> reads the buffer it stands for.
\<close>

type_synonym store = "sample list list"

record buffer_ref =
  ref_channels :: nat
  ref_length :: nat
  ref_rate :: real
  ref_data :: "nat list"

definition deref :: "store \<Rightarrow> buffer_ref \<Rightarrow> buffer" where
  "deref st r =
     \<lparr>numberOfChannels = ref_channels r, length_b = ref_length r, sampleRate = ref_rate r,
      chans = map (\<lambda>p. st ! p) (ref_data r)\<rparr>"

text \<open>
  Modelled from the spec: the constructor \<open>new AudioBuffer(channels, data, sampleRate)\<close> of
  the external package, on the store: channel \<open>i\<close> of the new buffer is the array
  \<open>data[i]\<close>.
\<close>

definition AudioBuffer_data_ref :: "store \<Rightarrow> nat \<Rightarrow> nat list \<Rightarrow> real \<Rightarrow> buffer_ref" where
  "AudioBuffer_data_ref st channels data rate =
     \<lparr>ref_channels = channels,
      ref_length = (case data of [] \<Rightarrow> 0 | p # _ \<Rightarrow> length (st ! p)),
      ref_rate = rate,
      ref_data = data\<rparr>"

text \<open>The \<open>map\<close> of an array: a new array, the callback applied to each value and its index.\<close>

definition map_array :: "(sample \<Rightarrow> nat \<Rightarrow> sample) \<Rightarrow> sample list \<Rightarrow> sample list" where
  "map_array cb d = map (\<lambda>idx. cb (d ! idx) idx) [0..<length d]"

text \<open>
  The loop of \<open>map\<close>. The callback is called with the buffer as receiver and with the
  value, the channel, the index and \<open>data\<close>, the list of the channels mapped so far.
\<close>

function map_loop ::
  "(buffer \<Rightarrow> sample \<Rightarrow> nat \<Rightarrow> nat \<Rightarrow> sample list list \<Rightarrow> sample)
     \<Rightarrow> store \<Rightarrow> buffer_ref \<Rightarrow> nat \<Rightarrow> nat list \<Rightarrow> nat list \<times> store" where
  "map_loop fn st r channel data =
     (if channel < ref_channels r
      then (let arr = map_array
                        (\<lambda>value idx. fn (deref st r) value channel idx (map (\<lambda>p. st ! p) data))
                        (getChannelData (deref st r) channel)
            in map_loop fn (st @ [arr]) r (channel + 1) (data @ [length st]))
      else (data, st))"
  by pat_completeness auto
termination
  by (relation "measure (\<lambda>(f, st, r, c, d). ref_channels r - c)") auto

definition map_buf ::
  "store \<Rightarrow> buffer_ref
     \<Rightarrow> (buffer \<Rightarrow> sample \<Rightarrow> nat \<Rightarrow> nat \<Rightarrow> sample list list \<Rightarrow> sample)
     \<Rightarrow> buffer_ref \<times> store" where
  "map_buf st r fn =
     (case map_loop fn st r 0 [] of
        (data, st') \<Rightarrow> (AudioBuffer_data_ref st' (ref_channels r) data (ref_rate r), st'))"

section \<open>Notions of the specification used in the statements\<close>

text \<open>
  A bound of a standard array slice, relative to an array of \<open>len\<close> elements: a negative
  bound counts from the end, and the result is clamped to \<open>[0, len]\<close>.
\<close>

definition rel_index :: "int \<Rightarrow> int \<Rightarrow> int" where
  "rel_index len x = (if x < 0 then max (len + x) 0 else min x len)"

text \<open>
  Channel \<open>c\<close> of a pairwise concatenation: the channel of \<open>a\<close> followed by the channel
  of \<open>b\<close>, each sample rounded to 32 bits, zeros standing in for a missing channel.
\<close>

definition concat_channel :: "buffer \<Rightarrow> buffer \<Rightarrow> nat \<Rightarrow> sample list" where
  "concat_channel a b c =
     (if c < numberOfChannels a then map fround (chans a ! c)
      else replicate (length_b a) (Num 0))
     @ (if c < numberOfChannels b then map fround (chans b ! c)
        else replicate (length_b b) (Num 0))"

text \<open>
  Two samples are exactly equal as numbers: the same value, and not NaN, which is equal to
  nothing, itself included.
\<close>

definition same_sample :: "sample \<Rightarrow> sample \<Rightarrow> bool" where
  "same_sample x y \<longleftrightarrow> x = y \<and> x \<noteq> NaN"

text \<open>The loops are unfolded step by step in the proofs, never by the simplifier on its own.\<close>

declare rotate_loop.simps [simp del] rotate_channels.simps [simp del]
  shift_left_loop.simps [simp del] shift_channels.simps [simp del]
  equal_samples.simps [simp del] equal_channels.simps [simp del]
  fill_fn_loop.simps [simp del] fill_channels.simps [simp del]
  slice_loop.simps [simp del] concat_loop.simps [simp del] map_loop.simps [simp del]
  bit_length.simps [simp del]

section \<open>Properties of rotate\<close>

lemma wr_length [simp]: "length (wr d i v) = length d"
  by (simp add: wr_def)

lemma rotate_loop_length [simp]: "length (rotate_loop s c off n) = length c"
  by (induction s c off n rule: rotate_loop.induct) (simp add: rotate_loop.simps[of _ c for c])

lemma js_rem_nonneg: "0 \<le> a \<Longrightarrow> 0 < b \<Longrightarrow> js_rem a b = a mod b"
  by (simp add: js_rem_def sgn_if)

lemma rotate_idx_mod:
  assumes "0 < l" "- l \<le> off" "0 \<le> i" "i < l"
  shows "rotate_idx off l i = (i + off) mod l"
proof (cases "off + i < 0")
  case True
  with assms have "0 \<le> off + (l + i)" by simp
  then have "rotate_idx off l i = (off + (l + i)) mod l"
    using True assms by (simp add: rotate_idx_def js_rem_nonneg)
  also have "\<dots> = (i + off) mod l"
    by (metis add.assoc add.commute mod_add_self1)
  finally show ?thesis .
next
  case False
  then show ?thesis using assms by (simp add: rotate_idx_def js_rem_nonneg add.commute)
qed

lemma rotate_loop_untouched:
  assumes "j < length c" "\<forall>i. n \<le> i \<and> i < length c \<longrightarrow> rotate_idx off (int (length c)) (int i) \<noteq> int j"
  shows "rotate_loop s c off n ! j = c ! j"
  using assms
proof (induction s c off n rule: rotate_loop.induct)
  case (1 s c off n)
  show ?case
  proof (cases "n < length c")
    case False
    then show ?thesis by (simp add: rotate_loop.simps[of s c])
  next
    case True
    let ?c' = "wr c (rotate_idx off (int (length c)) (int n)) (rd s (int n))"
    have "rotate_loop s c off n = rotate_loop s ?c' off (n + 1)"
      using True by (subst rotate_loop.simps) simp
    moreover have "rotate_loop s ?c' off (n + 1) ! j = ?c' ! j"
      using 1 True by (intro "1.IH") auto
    moreover have "?c' ! j = c ! j"
      using "1.prems" True by (auto simp: wr_def)
    ultimately show ?thesis by simp
  qed
qed


lemma rotate_loop_hit:
  assumes "length s = length c"
    and "n \<le> i" "i < length c"
    and "\<forall>i'. i' < length c \<longrightarrow> 0 \<le> rotate_idx off (int (length c)) (int i')
            \<and> rotate_idx off (int (length c)) (int i') < int (length c)"
    and "\<forall>i' i''. i' < length c \<and> i'' < length c
            \<and> rotate_idx off (int (length c)) (int i') = rotate_idx off (int (length c)) (int i'')
            \<longrightarrow> i' = i''"
  shows "rotate_loop s c off n ! nat (rotate_idx off (int (length c)) (int i)) = s ! i"
  using assms
proof (induction s c off n rule: rotate_loop.induct)
  case (1 s c off n)
  let ?idx = "\<lambda>k. rotate_idx off (int (length c)) (int k)"
  let ?c' = "wr c (?idx n) (rd s (int n))"
  have n: "n < length c" using "1.prems" by simp
  have step: "rotate_loop s c off n = rotate_loop s ?c' off (n + 1)"
    using n by (subst rotate_loop.simps) simp
  have rng: "0 \<le> ?idx i" "?idx i < int (length c)" using "1.prems" by auto
  show ?case
  proof (cases "i = n")
    case True
    have "rotate_loop s ?c' off (n + 1) ! nat (?idx n) = ?c' ! nat (?idx n)"
    proof (rule rotate_loop_untouched)
      show "nat (?idx n) < length ?c'" using rng True by simp
      show "\<forall>k. n + 1 \<le> k \<and> k < length ?c'
              \<longrightarrow> rotate_idx off (int (length ?c')) (int k) \<noteq> int (nat (?idx n))"
      proof (intro allI impI)
        fix k assume k: "n + 1 \<le> k \<and> k < length ?c'"
        then have "?idx k \<noteq> ?idx n" using "1.prems"(5) n by (metis Suc_eq_plus1 Suc_le_eq nat_neq_iff wr_length)
        then show "rotate_idx off (int (length ?c')) (int k) \<noteq> int (nat (?idx n))"
          using rng True by simp
      qed
    qed
    also have "\<dots> = s ! n"
      using rng True n "1.prems"(1) by (simp add: wr_def rd_def to_number_def)
    finally show ?thesis using step True by simp
  next
    case False
    then have "n + 1 \<le> i" using "1.prems" by simp
    then have "rotate_loop s ?c' off (n + 1) ! nat (rotate_idx off (int (length ?c')) (int i)) = s ! i"
      using "1.prems" n by (intro "1.IH") simp_all
    then show ?thesis using step by simp
  qed
qed

lemma mod_shift_inj:
  fixes l :: int
  assumes "0 \<le> i" "i < l" "0 \<le> j" "j < l" "(i + off) mod l = (j + off) mod l"
  shows "i = j"
proof -
  have "i mod l = j mod l"
    proof -
    have "(i + off - off) mod l = (j + off - off) mod l"
      using assms(5) by (rule mod_diff_cong) simp
    then show ?thesis by simp
  qed
  then show ?thesis using assms by simp
qed

lemma rotate_channel_nth:
  assumes "- int (length d) \<le> off" "i < length d"
  shows "rotate_channel d off ! nat ((int i + off) mod int (length d)) = d ! i"
proof -
  let ?l = "int (length d)"
  have l: "0 < ?l" using assms by (cases d) simp_all
  have idx: "\<And>k. k < length d \<Longrightarrow> rotate_idx off ?l (int k) = (int k + off) mod ?l"
    using assms l by (simp add: rotate_idx_mod)
  have "rotate_loop d d off 0 ! nat (rotate_idx off ?l (int i)) = d ! i"
  proof (rule rotate_loop_hit)
    show "\<forall>i'. i' < length d \<longrightarrow> 0 \<le> rotate_idx off ?l (int i') \<and> rotate_idx off ?l (int i') < ?l"
      using idx l by simp
    show "\<forall>i' i''. i' < length d \<and> i'' < length d
            \<and> rotate_idx off ?l (int i') = rotate_idx off ?l (int i'') \<longrightarrow> i' = i''"
    proof (intro allI impI)
      fix i' i'' assume a: "i' < length d \<and> i'' < length d
            \<and> rotate_idx off ?l (int i') = rotate_idx off ?l (int i'')"
      have h: "rotate_idx off ?l (int i') = (int i' + off) mod ?l"
        "rotate_idx off ?l (int i'') = (int i'' + off) mod ?l"
        using a idx by blast+
      have "rotate_idx off ?l (int i') = rotate_idx off ?l (int i'')" using a by blast
      then have "(int i' + off) mod ?l = (int i'' + off) mod ?l" unfolding h .
      then have "int i' = int i''" using a by (intro mod_shift_inj[of "int i'" ?l "int i''" off]) simp_all
      then show "i' = i''" by simp
    qed
  qed (use assms in simp_all)
  then show ?thesis using idx assms by (simp add: rotate_channel_def)
qed

lemma rotate_channel_length [simp]: "length (rotate_channel d off) = length d"
  by (simp add: rotate_channel_def)

lemma rotate_channel_inverse:
  assumes "- int (length d) \<le> k" "k \<le> int (length d)"
  shows "rotate_channel (rotate_channel d k) (- k) = d"
proof (rule nth_equalityI)
  show "length (rotate_channel (rotate_channel d k) (- k)) = length d" by simp
next
  fix i assume "i < length (rotate_channel (rotate_channel d k) (- k))"
  then have i: "i < length d" by simp
  let ?l = "int (length d)"
  have l: "0 < ?l" using i by (cases d) simp_all
  define m where "m = (int i + k) mod ?l"
  have m: "0 \<le> m" "m < ?l"
    using l unfolding m_def by (rule pos_mod_sign, rule pos_mod_bound)
  define j where "j = nat m"
  have j: "j < length d" "int j = m"
    using m by (simp_all add: j_def)
  have "(m + (- k)) mod ?l = ((int i + k) mod ?l - k) mod ?l" by (simp add: m_def)
  also have "\<dots> = (int i + k - k) mod ?l" by (rule mod_diff_left_eq)
  also have "\<dots> = int i" using i by simp
  finally have bk: "(int j + (- k)) mod ?l = int i" using j by simp
  have len: "length (rotate_channel d k) = length d" by simp
  have "rotate_channel (rotate_channel d k) (- k)
          ! nat ((int j + (- k)) mod int (length (rotate_channel d k))) = rotate_channel d k ! j"
  proof (rule rotate_channel_nth)
    show "- int (length (rotate_channel d k)) \<le> - k" using assms(2) by (simp add: len)
    show "j < length (rotate_channel d k)" using j by (simp only: len)
  qed
  then have "rotate_channel (rotate_channel d k) (- k) ! i = rotate_channel d k ! j"
    by (simp only: len bk nat_int)
  also have "rotate_channel d k ! j = d ! i"
    using rotate_channel_nth[OF assms(1) i] unfolding j_def m_def .
  finally show "rotate_channel (rotate_channel d k) (- k) ! i = d ! i" .
qed

lemma rotate_channels_chans:
  assumes "length (chans b) = numberOfChannels b" "c \<le> numberOfChannels b"
  shows "rotate_channels b off c =
           b\<lparr>chans := take c (chans b) @ map (\<lambda>d. rotate_channel d off) (drop c (chans b))\<rparr>"
  using assms
proof (induction b off c rule: rotate_channels.induct)
  case (1 b off c)
  show ?case
  proof (cases "c < numberOfChannels b")
    case False
    with "1.prems" show ?thesis by (simp add: rotate_channels.simps[of b])
  next
    case True
    let ?b' = "setChannelData b c (rotate_channel (getChannelData b c) off)"
    have step: "rotate_channels b off c = rotate_channels ?b' off (c + 1)"
      using True by (subst rotate_channels.simps) simp
    have ih: "rotate_channels ?b' off (c + 1) =
        ?b'\<lparr>chans := take (c + 1) (chans ?b') @ map (\<lambda>d. rotate_channel d off) (drop (c + 1) (chans ?b'))\<rparr>"
      using True "1.prems" by (intro "1.IH") (simp_all add: setChannelData_def)
    have "take (c + 1) (chans ?b') = take c (chans b) @ [rotate_channel (chans b ! c) off]"
      using True "1.prems" by (simp add: setChannelData_def getChannelData_def take_Suc_conv_app_nth)
    moreover have "drop (c + 1) (chans ?b') = drop (c + 1) (chans b)"
      by (simp add: setChannelData_def)
    moreover have "drop c (chans b) = chans b ! c # drop (c + 1) (chans b)"
      using True "1.prems" by (simp add: Cons_nth_drop_Suc)
    ultimately show ?thesis
      unfolding step ih by (simp add: setChannelData_def)
  qed
qed

lemma rotate_buf_chans:
  assumes "length (chans b) = numberOfChannels b"
  shows "rotate_buf b off = b\<lparr>chans := map (\<lambda>d. rotate_channel d off) (chans b)\<rparr>"
  using rotate_channels_chans[OF assms, of 0 off] by (simp add: rotate_buf_def)

text \<open>The two rotations of the specification's example, by 1 and by \<open>-1\<close>.\<close>

lemma rotate_example:
  "rotate_buf \<lparr>numberOfChannels = 1, length_b = 4, sampleRate = 44100,
                chans = [[Num 1, Num 2, Num 3, Num 4]]\<rparr> 1
     = \<lparr>numberOfChannels = 1, length_b = 4, sampleRate = 44100,
        chans = [[Num 4, Num 1, Num 2, Num 3]]\<rparr>"
  "rotate_buf \<lparr>numberOfChannels = 1, length_b = 4, sampleRate = 44100,
                chans = [[Num 1, Num 2, Num 3, Num 4]]\<rparr> (- 1)
     = \<lparr>numberOfChannels = 1, length_b = 4, sampleRate = 44100,
        chans = [[Num 2, Num 3, Num 4, Num 1]]\<rparr>"
  by (simp_all add: rotate_buf_def rotate_channels.simps rotate_channel_def rotate_loop.simps
      getChannelData_def setChannelData_def rotate_idx_def js_rem_def wr_def rd_def to_number_def)

text \<open>
  Claim C3. After \<open>rotate(buffer, offset)\<close> the sample from index \<open>i\<close> should be at
  index \<open>(i + offset) mod l\<close>, whatever the integer offset. For the one-channel buffer
  \<open>[1, 2, 3, 4]\<close> and offset \<open>-5\<close> the code computes \<open>idx = -1\<close> for \<open>i = 0\<close>, the store
  is dropped, and the result is \<open>[2, 3, 4, 4]\<close>: the sample 1, expected at index 3, is lost.
\<close>

theorem rotate_below_minus_length_loses_sample:
  "rotate_buf \<lparr>numberOfChannels = 1, length_b = 4, sampleRate = 44100,
                chans = [[Num 1, Num 2, Num 3, Num 4]]\<rparr> (- 5)
     = \<lparr>numberOfChannels = 1, length_b = 4, sampleRate = 44100,
        chans = [[Num 2, Num 3, Num 4, Num 4]]\<rparr>"
  by (simp add: rotate_buf_def rotate_channels.simps rotate_channel_def rotate_loop.simps
      getChannelData_def setChannelData_def rotate_idx_def js_rem_def wr_def rd_def to_number_def)

section \<open>Properties of shift\<close>

lemma shift_right_loop_returns_nonneg:
  assumes "shift_right_loop d off i = Some r"
  shows "0 \<le> i"
proof (rule shift_right_loop.raw_induct[where P = "\<lambda>d off i r. 0 \<le> i", OF _ assms])
  fix f :: "sample list \<Rightarrow> int \<Rightarrow> int \<Rightarrow> sample list option" and cData offset i y
  assume ih: "\<And>c off k y. f c off k = Some y \<Longrightarrow> 0 \<le> k"
    and body: "(if i = 0 then Some cData
                else f (wr cData (i - 1 + offset) (rd cData (i - 1))) offset (i - 1)) = Some y"
  show "0 \<le> i"
  proof (cases "i = 0")
    case True
    then show ?thesis by simp
  next
    case False
    with body have "f (wr cData (i - 1 + offset) (rd cData (i - 1))) offset (i - 1) = Some y" by simp
    then have "0 \<le> i - 1" by (rule ih)
    then show ?thesis by simp
  qed
qed

lemma shift_right_loop_diverges: "i < 0 \<Longrightarrow> shift_right_loop d off i = None"
  using shift_right_loop_returns_nonneg[of d off i] by (cases "shift_right_loop d off i") auto

lemma shift_right_loop_Some:
  assumes "0 < off" "int n + off \<le> int (length d)"
  shows "\<exists>r. shift_right_loop d off (int n) = Some r \<and> length r = length d
           \<and> (\<forall>j < length d. r ! j =
                 (if off \<le> int j \<and> int j < off + int n then d ! nat (int j - off) else d ! j))"
  using assms
proof (induction n arbitrary: d)
  case 0
  then show ?case by (auto simp add: shift_right_loop.simps)
next
  case (Suc n)
  let ?d' = "wr d (int n + off) (rd d (int n))"
  have step: "shift_right_loop d off (int (Suc n)) = shift_right_loop ?d' off (int n)"
    by (subst shift_right_loop.simps) simp
  have d': "?d' = d[nat (int n + off) := d ! n]"
    using Suc.prems by (simp add: wr_def rd_def to_number_def)
  have "int n + off \<le> int (length ?d')" using Suc.prems by simp
  from Suc.IH[OF Suc.prems(1) this]
  obtain r where r: "shift_right_loop ?d' off (int n) = Some r" "length r = length d"
    "\<forall>j < length d. r ! j =
        (if off \<le> int j \<and> int j < off + int n then ?d' ! nat (int j - off) else ?d' ! j)"
    by auto
  have "\<forall>j < length d. r ! j =
        (if off \<le> int j \<and> int j < off + int (Suc n) then d ! nat (int j - off) else d ! j)"
  proof (intro allI impI)
    fix j assume j: "j < length d"
    consider "off \<le> int j \<and> int j < off + int n" | "int j = off + int n"
      | "\<not> (off \<le> int j \<and> int j < off + int (Suc n))" by linarith
    then show "r ! j = (if off \<le> int j \<and> int j < off + int (Suc n) then d ! nat (int j - off) else d ! j)"
    proof cases
      case 1
      then have "nat (int j - off) \<noteq> nat (int n + off)" using Suc.prems by linarith
      then show ?thesis using r(3) j 1 by (simp add: d')
    next
      case 2
      then have "nat (int n + off) = j" "nat (int j - off) = n" by simp_all
      then show ?thesis using r(3) j 2 Suc.prems by (simp add: d')
    next
      case 3
      then have "j \<noteq> nat (int n + off)" using Suc.prems by linarith
      then show ?thesis using r(3) j 3 by (auto simp add: d')
    qed
  qed
  then show ?case using r step by simp
qed


lemma rd_wr_other: "k \<noteq> i \<Longrightarrow> rd (wr c i v) k = rd c k"
  by (auto simp: rd_def wr_def)

lemma shift_left_loop_nth:
  assumes "off \<le> 0" "l = int (length c) - off" "- off \<le> i"
  shows "length (shift_left_loop c off l i) = length c
         \<and> (\<forall>j < length c. shift_left_loop c off l i ! j =
               (if i + off \<le> int j then or_zero (rd c (int j - off)) else c ! j))"
  using assms
proof (induction c off l i rule: shift_left_loop.induct)
  case (1 c off l i)
  show ?case
  proof (cases "i < l")
    case False
    then have "shift_left_loop c off l i = c" by (simp add: shift_left_loop.simps[of c])
    moreover have "\<forall>j < length c. \<not> i + off \<le> int j" using False "1.prems" by auto
    ultimately show ?thesis by simp
  next
    case True
    let ?c' = "wr c (i + off) (Some (or_zero (rd c i)))"
    have step: "shift_left_loop c off l i = shift_left_loop ?c' off l (i + 1)"
      using True by (subst shift_left_loop.simps) simp
    have rng: "0 \<le> i + off" "i + off < int (length c)" using True "1.prems" by auto
    have c': "?c' = c[nat (i + off) := or_zero (rd c i)]"
      using rng by (simp add: wr_def to_number_def)
    have ih: "length (shift_left_loop ?c' off l (i + 1)) = length ?c'
         \<and> (\<forall>j < length ?c'. shift_left_loop ?c' off l (i + 1) ! j =
               (if i + 1 + off \<le> int j then or_zero (rd ?c' (int j - off)) else ?c' ! j))"
      using True "1.prems" by (intro "1.IH") simp_all
    have "\<forall>j < length c. shift_left_loop ?c' off l (i + 1) ! j =
               (if i + off \<le> int j then or_zero (rd c (int j - off)) else c ! j)"
    proof (intro allI impI)
      fix j assume j: "j < length c"
      consider "i + 1 + off \<le> int j" | "int j = i + off" | "int j < i + off" by linarith
      then show "shift_left_loop ?c' off l (i + 1) ! j =
               (if i + off \<le> int j then or_zero (rd c (int j - off)) else c ! j)"
      proof cases
        case 1
        then have "int j - off \<noteq> i + off" using "1.prems" by linarith
        then have "rd ?c' (int j - off) = rd c (int j - off)" by (rule rd_wr_other)
        then show ?thesis using ih j 1 by simp
      next
        case 2
        then have "nat (i + off) = j" "int j - off = i" by simp_all
        then show ?thesis using ih j 2 by (simp add: c')
      next
        case 3
        then have "j \<noteq> nat (i + off)" using rng by linarith
        then show ?thesis using ih j 3 by (simp add: c')
      qed
    qed
    then show ?thesis using ih step by simp
  qed
qed

lemma shift_channel_left:
  assumes "off \<le> 0"
  shows "shift_channel d off = Some (map (\<lambda>j. or_zero (rd d (int j - off))) [0..<length d])"
proof -
  let ?r = "shift_left_loop d off (int (length d) - off) (- off)"
  have r: "length ?r = length d \<and> (\<forall>j < length d. ?r ! j =
               (if - off + off \<le> int j then or_zero (rd d (int j - off)) else d ! j))"
    using assms by (intro shift_left_loop_nth) simp_all
  have "?r = map (\<lambda>j. or_zero (rd d (int j - off))) [0..<length d]"
    by (rule nth_equalityI) (use r in simp_all)
  then show ?thesis using assms by (simp add: shift_channel_def)
qed

lemma or_zero_Some: "or_zero (Some s) = (if s = NaN then Num 0 else s)"
  by (cases s) (simp_all add: or_zero_def)

lemma shift_channel_zero:
  "shift_channel d 0 = Some (map (\<lambda>s. if s = NaN then Num 0 else s) d)"
proof -
  have "map (\<lambda>j. or_zero (rd d (int j - 0))) [0..<length d] = map (\<lambda>s. if s = NaN then Num 0 else s) d"
    by (rule nth_equalityI) (simp_all add: rd_def or_zero_Some)
  then show ?thesis using shift_channel_left[of 0 d] by simp
qed

lemma shift_channel_right:
  assumes "0 < off" "off \<le> int (length d)"
  shows "\<exists>r. shift_channel d off = Some r \<and> length r = length d
           \<and> (\<forall>j < length d. r ! j = (if off \<le> int j then d ! nat (int j - off) else d ! j))"
proof -
  define n where "n = nat (int (length d) - off)"
  have n: "int n = int (length d) - off" "int n + off \<le> int (length d)"
    using assms by (simp_all add: n_def)
  from shift_right_loop_Some[OF assms(1) n(2)]
  obtain r where r: "shift_right_loop d off (int n) = Some r" "length r = length d"
    "\<forall>j < length d. r ! j =
        (if off \<le> int j \<and> int j < off + int n then d ! nat (int j - off) else d ! j)"
    by auto
  have "\<forall>j < length d. r ! j = (if off \<le> int j then d ! nat (int j - off) else d ! j)"
    using r(3) n by auto
  then show ?thesis using r assms n by (simp add: shift_channel_def)
qed

lemma shift_channel_diverges:
  assumes "int (length d) < off"
  shows "shift_channel d off = None"
  using assms by (simp add: shift_channel_def shift_right_loop_diverges)


lemma shift_channels_Some:
  assumes "length (chans b) = numberOfChannels b" "c \<le> numberOfChannels b"
    and "\<forall>d \<in> set (drop c (chans b)). shift_channel d off = Some (g d)"
  shows "shift_channels b off c = Some (b\<lparr>chans := take c (chans b) @ map g (drop c (chans b))\<rparr>)"
  using assms
proof (induction b off c rule: shift_channels.induct)
  case (1 b off c)
  show ?case
  proof (cases "c < numberOfChannels b")
    case False
    with "1.prems" show ?thesis by (simp add: shift_channels.simps[of b])
  next
    case True
    have dr: "drop c (chans b) = chans b ! c # drop (c + 1) (chans b)"
      using True "1.prems" by (simp add: Cons_nth_drop_Suc)
    have sc: "shift_channel (getChannelData b c) off = Some (g (chans b ! c))"
      using "1.prems"(3) dr by (simp add: getChannelData_def)
    let ?b' = "setChannelData b c (g (chans b ! c))"
    have step: "shift_channels b off c = shift_channels ?b' off (c + 1)"
      using True sc by (subst shift_channels.simps) simp
    have dr': "drop (c + 1) (chans ?b') = drop (c + 1) (chans b)"
      by (simp add: setChannelData_def)
    have ih: "shift_channels ?b' off (c + 1) =
        Some (?b'\<lparr>chans := take (c + 1) (chans ?b') @ map g (drop (c + 1) (chans ?b'))\<rparr>)"
    proof (rule "1.IH"[OF True sc])
      show "length (chans ?b') = numberOfChannels ?b'"
        using "1.prems" by (simp add: setChannelData_def)
      show "c + 1 \<le> numberOfChannels ?b'" using True by (simp add: setChannelData_def)
      show "\<forall>d\<in>set (drop (c + 1) (chans ?b')). shift_channel d off = Some (g d)"
        using "1.prems"(3) dr unfolding dr' by simp
    qed
    have "take (c + 1) (chans ?b') = take c (chans b) @ [g (chans b ! c)]"
      using True "1.prems" by (simp add: setChannelData_def take_Suc_conv_app_nth)
    then show ?thesis
      unfolding step ih dr' by (simp add: setChannelData_def dr)
  qed
qed

text \<open>
  Claim C10. For an offset \<open>\<le> 0\<close> every destination receives \<open>cData[i] || 0\<close>: index
  \<open>j\<close> of each channel ends as the source sample at \<open>j - offset\<close>, with 0 in place of a
  NaN sample and of a read past the end. In particular \<open>shift(b, 0)\<close> replaces every NaN
  by 0 and leaves the other samples as they are, so it is not the identity on a buffer that
  holds a NaN.
\<close>

theorem shift_nonpositive_writes_or_zero:
  assumes "wf_buffer b"
  shows "(offset \<le> 0 \<longrightarrow>
            shift b offset =
              Some (b\<lparr>chans := map (\<lambda>d. map (\<lambda>j. or_zero (rd d (int j - offset))) [0..<length d])
                                   (chans b)\<rparr>))
         \<and> shift b 0 = Some (b\<lparr>chans := map (map (\<lambda>s. if s = NaN then Num 0 else s)) (chans b)\<rparr>)
         \<and> ((\<exists>d \<in> set (chans b). NaN \<in> set d) \<longrightarrow> shift b 0 \<noteq> Some b)"
proof (intro conjI impI)
  have len: "length (chans b) = numberOfChannels b" using assms by (simp add: wf_buffer_def)
  show "shift b offset =
      Some (b\<lparr>chans := map (\<lambda>d. map (\<lambda>j. or_zero (rd d (int j - offset))) [0..<length d]) (chans b)\<rparr>)"
    if "offset \<le> 0"
    using shift_channels_Some[OF len, of 0 offset
        "\<lambda>d. map (\<lambda>j. or_zero (rd d (int j - offset))) [0..<length d]"] that
    by (simp add: shift_def shift_channel_left)
  show z: "shift b 0 = Some (b\<lparr>chans := map (map (\<lambda>s. if s = NaN then Num 0 else s)) (chans b)\<rparr>)"
    using shift_channels_Some[OF len, of 0 0 "map (\<lambda>s. if s = NaN then Num 0 else s)"]
    by (simp add: shift_def shift_channel_zero)
  show "shift b 0 \<noteq> Some b" if "\<exists>d \<in> set (chans b). NaN \<in> set d"
  proof
    assume "shift b 0 = Some b"
    with z have "chans b = map (map (\<lambda>s. if s = NaN then Num 0 else s)) (chans b)"
      by (metis buffer.select_convs(4) buffer.surjective buffer.update_convs(4) option.inject)
    moreover from that obtain d where d: "d \<in> set (chans b)" "NaN \<in> set d" by blast
    ultimately have "d \<in> set (map (map (\<lambda>s. if s = NaN then Num 0 else s)) (chans b))" by simp
    then obtain d' where "d = map (\<lambda>s. if s = NaN then Num 0 else s) d'" by auto
    with d(2) show False by auto
  qed
qed

theorem shift_nonpositive_writes_or_zero_witness:
  "shift \<lparr>numberOfChannels = 1, length_b = 3, sampleRate = 44100, chans = [[NaN, Num 5, NaN]]\<rparr> (- 1)
     = Some \<lparr>numberOfChannels = 1, length_b = 3, sampleRate = 44100, chans = [[Num 5, Num 0, Num 0]]\<rparr>
   \<and> shift \<lparr>numberOfChannels = 1, length_b = 3, sampleRate = 44100, chans = [[NaN, Num 5, NaN]]\<rparr> 0
     = Some \<lparr>numberOfChannels = 1, length_b = 3, sampleRate = 44100, chans = [[Num 0, Num 5, Num 0]]\<rparr>"
  using shift_nonpositive_writes_or_zero
    [of "\<lparr>numberOfChannels = 1, length_b = 3, sampleRate = 44100, chans = [[NaN, Num 5, NaN]]\<rparr>" "- 1"]
  by (simp add: wf_buffer_def rd_def or_zero_def)

text \<open>
  Claim C4. \<open>shift\<close> should behave as described for every integer offset; for an offset
  above the channel length the described range of the copy is empty. On the one-channel
  buffer \<open>[1, 2, 3, 4]\<close> with offset 5 the loop \<open>for (var i = cData.length - offset; i--;)\<close>
  starts at \<open>-1\<close>, its test never reads 0, and the call does not return.
\<close>

theorem shift_beyond_length_never_returns:
  "shift \<lparr>numberOfChannels = 1, length_b = 4, sampleRate = 44100,
          chans = [[Num 1, Num 2, Num 3, Num 4]]\<rparr> 5 = None"
  by (simp add: shift_def shift_channels.simps getChannelData_def shift_channel_diverges)

section \<open>Properties of fill\<close>





section \<open>Properties of slice\<close>

lemma slice_loop_eq:
  assumes "length (chans b) = numberOfChannels b" "ch \<le> numberOfChannels b"
  shows "slice_loop b s e ch data = data @ map (\<lambda>d. slice_array d s e) (drop ch (chans b))"
  using assms
proof (induction b s e ch data rule: slice_loop.induct)
  case (1 b s e ch data)
  show ?case
  proof (cases "ch < numberOfChannels b")
    case False
    with "1.prems" show ?thesis by (simp add: slice_loop.simps[of b])
  next
    case True
    have "slice_loop b s e ch data
            = slice_loop b s e (ch + 1) (data @ [slice_array (getChannelData b ch) s e])"
      using True by (subst slice_loop.simps) simp
    also have "\<dots> = (data @ [slice_array (getChannelData b ch) s e])
                        @ map (\<lambda>d. slice_array d s e) (drop (ch + 1) (chans b))"
      using True "1.prems" by (intro "1.IH") simp_all
    also have "\<dots> = data @ map (\<lambda>d. slice_array d s e) (drop ch (chans b))"
      using True "1.prems" by (simp add: getChannelData_def Cons_nth_drop_Suc[symmetric])
    finally show ?thesis .
  qed
qed

lemma slice_array_eq:
  "slice_array d s e =
     map (\<lambda>j. d ! j)
       [nat (rel_index (int (length d)) (case s of None \<Rightarrow> 0 | Some x \<Rightarrow> x))
        ..< nat (rel_index (int (length d)) (case e of None \<Rightarrow> int (length d) | Some x \<Rightarrow> x))]"
proof -
  define lo where "lo = nat (rel_index (int (length d)) (case s of None \<Rightarrow> 0 | Some x \<Rightarrow> x))"
  define hi where "hi = nat (rel_index (int (length d)) (case e of None \<Rightarrow> int (length d) | Some x \<Rightarrow> x))"
  have hi: "hi \<le> length d" by (auto simp: hi_def rel_index_def split: option.splits)
  have lo: "lo \<le> length d" by (auto simp: lo_def rel_index_def split: option.splits)
  have lo0: "0 \<le> rel_index (int (length d)) x" for x by (simp add: rel_index_def)
  have "slice_array d s e = take (hi - lo) (drop lo d)"
    by (simp add: slice_array_def Let_def rel_index_def[symmetric] lo_def hi_def
        nat_diff_distrib'[OF lo0 lo0])
  also have "\<dots> = map (\<lambda>j. d ! j) [lo..<hi]"
  proof (rule nth_equalityI)
    show "length (take (hi - lo) (drop lo d)) = length (map (\<lambda>j. d ! j) [lo..<hi])"
      using hi lo by simp
  next
    fix i assume "i < length (take (hi - lo) (drop lo d))"
    then have "i < hi - lo" by simp
    then show "take (hi - lo) (drop lo d) ! i = map (\<lambda>j. d ! j) [lo..<hi] ! i"
      using hi by simp
  qed
  finally show ?thesis by (simp add: lo_def hi_def)
qed


lemma slice_eq:
  assumes "wf_buffer b"
  shows "slice b s e =
     \<lparr>numberOfChannels = numberOfChannels b,
      length_b = length (slice_array (hd (chans b)) s e),
      sampleRate = sampleRate b,
      chans = map (\<lambda>d. slice_array d s e) (chans b)\<rparr>"
proof -
  have len: "length (chans b) = numberOfChannels b" "0 < numberOfChannels b"
    using assms by (simp_all add: wf_buffer_def)
  then obtain d ds where "chans b = d # ds" by (cases "chans b") auto
  then show ?thesis
    using slice_loop_eq[OF len(1), of 0 s e "[]"] by (simp add: slice_def AudioBuffer_data_def)
qed

text \<open>
  Claim C6, as amended. \<open>slice(buffer, start, end)\<close> gives a buffer with the channel count
  and sample rate of the source whose every channel is the range \<open>[lo, hi)\<close> of the source
  channel, where \<open>lo\<close> and \<open>hi\<close> are the bounds of a standard array slice: a negative
  \<open>start\<close> or \<open>end\<close> counts from the end of the channel, a bound outside the channel is
  clamped, an omitted \<open>end\<close> is the end of the channel (and \<open>hi \<le> lo\<close> gives empty
  channels). The function only reads the source.
\<close>

theorem slice_standard_semantics:
  assumes "wf_buffer b"
  shows "let r = slice b start end;
             lo = nat (rel_index (int (length_b b)) (case start of None \<Rightarrow> 0 | Some x \<Rightarrow> x));
             hi = nat (rel_index (int (length_b b)) (case end of None \<Rightarrow> int (length_b b) | Some x \<Rightarrow> x))
         in numberOfChannels r = numberOfChannels b \<and> sampleRate r = sampleRate b
            \<and> length_b r = hi - lo \<and> wf_buffer r
            \<and> (\<forall>c < numberOfChannels b. chans r ! c = map (\<lambda>j. chans b ! c ! j) [lo..<hi])"
proof -
  have len: "length (chans b) = numberOfChannels b" "0 < numberOfChannels b"
    and all: "\<forall>d \<in> set (chans b). length d = length_b b"
    using assms by (simp_all add: wf_buffer_def list_all_iff)
  define lo where "lo = nat (rel_index (int (length_b b)) (case start of None \<Rightarrow> 0 | Some x \<Rightarrow> x))"
  define hi where "hi = nat (rel_index (int (length_b b)) (case end of None \<Rightarrow> int (length_b b) | Some x \<Rightarrow> x))"
  have sa: "slice_array d start end = map (\<lambda>j. d ! j) [lo..<hi]" if "d \<in> set (chans b)" for d
  proof -
    have "length d = length_b b" using all that by simp
    then show ?thesis
      using slice_array_eq[of d start "end"] by (simp add: lo_def hi_def split: option.splits)
  qed
  have hd: "hd (chans b) \<in> set (chans b)" using len by (cases "chans b") auto
  have r: "slice b start end =
     \<lparr>numberOfChannels = numberOfChannels b, length_b = hi - lo,
      sampleRate = sampleRate b, chans = map (\<lambda>d. map (\<lambda>j. d ! j) [lo..<hi]) (chans b)\<rparr>"
    using sa hd by (simp add: slice_eq[OF assms] cong: map_cong)
  have "wf_buffer (slice b start end)"
    using len by (simp add: r wf_buffer_def list_all_iff)
  then show ?thesis
    using len unfolding Let_def lo_def[symmetric] hi_def[symmetric] by (simp add: r)
qed

theorem slice_standard_semantics_witness:
  "slice \<lparr>numberOfChannels = 1, length_b = 4, sampleRate = 44100,
          chans = [[Num 1, Num 2, Num 3, Num 4]]\<rparr> (Some (- 3)) (Some (- 1))
     = \<lparr>numberOfChannels = 1, length_b = 2, sampleRate = 44100, chans = [[Num 2, Num 3]]\<rparr>"
proof -
  let ?b = "\<lparr>numberOfChannels = 1, length_b = 4, sampleRate = 44100,
          chans = [[Num 1, Num 2, Num 3, Num 4]]\<rparr>"
  have wf: "wf_buffer ?b" by (simp add: wf_buffer_def)
  have up: "[Suc 0..<3] = [1, 2]" by (simp add: upt_rec)
  show ?thesis
    using slice_standard_semantics[OF wf, of "Some (- 3)" "Some (- 1)"]
    by (cases "slice ?b (Some (- 3)) (Some (- 1))")
       (auto simp add: Let_def rel_index_def up wf_buffer_def length_Suc_conv)
qed

text \<open>
  Claim C6, as stated, reads a negative \<open>end\<close> as "to the end", like an omitted one. On
  \<open>[1, 2, 3, 4]\<close> the slice from 0 to \<open>-1\<close> is \<open>[1, 2, 3]\<close>, not the whole channel.
\<close>

theorem slice_negative_end_counts_from_end:
  "slice \<lparr>numberOfChannels = 1, length_b = 4, sampleRate = 44100,
          chans = [[Num 1, Num 2, Num 3, Num 4]]\<rparr> (Some 0) (Some (- 1))
     \<noteq> slice \<lparr>numberOfChannels = 1, length_b = 4, sampleRate = 44100,
          chans = [[Num 1, Num 2, Num 3, Num 4]]\<rparr> (Some 0) None"
  by (simp add: slice_def slice_loop.simps AudioBuffer_data_def getChannelData_def slice_array_def)

section \<open>Properties of concat\<close>

lemma wf_buffer_nth: "wf_buffer b \<Longrightarrow> c < numberOfChannels b \<Longrightarrow> length (chans b ! c) = length_b b"
  by (simp add: wf_buffer_def list_all_length)

text \<open>
  The rounding is to a nearest multiple of the spacing, and the exponent that fixes the
  spacing is the one of the sample: \<open>2^e \<le> a < 2^(e+1)\<close>.
\<close>

lemma bit_length_bounds:
  assumes "0 < n"
  shows "1 \<le> bit_length n \<and> 2 ^ nat (bit_length n - 1) \<le> n \<and> n < 2 ^ nat (bit_length n)"
  using assms
proof (induction n rule: bit_length.induct)
  case (1 n)
  have bl: "bit_length n = 1 + bit_length (n div 2)"
    using "1.prems" by (subst bit_length.simps) simp
  show ?case
  proof (cases "n = 1")
    case True
    have "bit_length (0::int) = 0" by (subst bit_length.simps) simp
    then show ?thesis using True bl by simp
  next
    case False
    then have m: "0 < n div 2" using "1.prems" by simp
    define k where "k = bit_length (n div 2)"
    from "1.IH"[OF _ m] "1.prems"
    have ih: "1 \<le> k" "2 ^ nat (k - 1) \<le> n div 2" "n div 2 < 2 ^ nat k"
      by (simp_all add: k_def)
    have k: "nat k = Suc (nat (k - 1))" using ih(1) by simp
    have "(2::int) ^ nat k \<le> n" using ih(2) by (simp add: k)
    moreover have "n < 2 ^ nat (1 + k)"
    proof -
      have "nat (1 + k) = Suc (nat k)" using ih(1) by simp
      moreover have "n < 2 * (n div 2) + 2" by simp
      ultimately show ?thesis using ih(3) by simp
    qed
    ultimately show ?thesis using ih(1) by (simp add: bl k_def[symmetric])
  qed
qed

lemma float_exponent_bounds:
  assumes "0 < a"
  shows "pow2 (float_exponent a) \<le> a \<and> a < pow2 (float_exponent a + 1)"
proof (cases "1 \<le> a")
  case True
  define n where "n = \<lfloor>a\<rfloor>"
  have n: "0 < n" "of_int n \<le> a" "a < of_int n + 1" using True by (simp_all add: n_def)
  define k where "k = bit_length n"
  from bit_length_bounds[OF n(1)]
  have b: "1 \<le> k" "2 ^ nat (k - 1) \<le> n" "n < 2 ^ nat k" by (simp_all add: k_def)
  have e: "float_exponent a = k - 1" using True by (simp add: float_exponent_def n_def k_def)
  have f1: "(2::real) ^ nat (k - 1) \<le> of_int n"
    proof -
      have "(of_int (2 ^ nat (k - 1)) :: real) \<le> of_int n" using b(2) by (simp only: of_int_le_iff)
      then show ?thesis by simp
    qed
  have f2: "of_int n + 1 \<le> (2::real) ^ nat k"
  proof -
    have "n + 1 \<le> 2 ^ nat k" using b(3) by simp
    then have "(of_int (n + 1) :: real) \<le> of_int (2 ^ nat k)" by (simp only: of_int_le_iff)
    then show ?thesis by simp
  qed
  have "(2::real) ^ nat (k - 1) \<le> a" using f1 n(2) by (rule order_trans)
  moreover have "a < (2::real) ^ nat k" using n(3) f2 by (rule less_le_trans)
  moreover have "pow2 (k - 1) = 2 ^ nat (k - 1)" "pow2 (k - 1 + 1) = 2 ^ nat k"
    using b(1) by (simp_all add: pow2_def)
  ultimately show ?thesis by (simp only: e)
next
  case False
  define y where "y = 1 / a"
  have y: "1 < y" "a = 1 / y" using False assms by (simp_all add: y_def)
  define m where "m = \<lceil>y\<rceil> - 1"
  have m: "0 < m" "of_int m < y" "y \<le> of_int m + 1"
    using y(1) ceiling_correct[of y] by (simp_all add: m_def)
  define k where "k = bit_length m"
  from bit_length_bounds[OF m(1)]
  have b: "1 \<le> k" "2 ^ nat (k - 1) \<le> m" "m < 2 ^ nat k" by (simp_all add: k_def)
  have e: "float_exponent a = - k" using False by (simp add: float_exponent_def m_def k_def y_def)
  have lo: "(2::real) ^ nat (k - 1) < y"
  proof -
    have "(2::real) ^ nat (k - 1) \<le> of_int m"
      proof -
      have "(of_int (2 ^ nat (k - 1)) :: real) \<le> of_int m" using b(2) by (simp only: of_int_le_iff)
      then show ?thesis by simp
    qed
    then show ?thesis using m(2) by (rule le_less_trans)
  qed
  have hi: "y \<le> (2::real) ^ nat k"
  proof -
    have "m + 1 \<le> 2 ^ nat k" using b(3) by simp
    then have "(of_int (m + 1) :: real) \<le> of_int (2 ^ nat k)" by (simp only: of_int_le_iff)
    then have "of_int m + 1 \<le> (2::real) ^ nat k" by simp
    with m(3) show ?thesis by (rule order_trans)
  qed
  have ypos: "0 < y" using y(1) by simp
  have "1 / 2 ^ nat k \<le> 1 / y" using hi ypos by (simp add: frac_le)
  then have A: "1 / 2 ^ nat k \<le> a" by (simp only: y(2))
  have "1 / y < 1 / 2 ^ nat (k - 1)" using lo by (simp add: frac_less2)
  then have B: "a < 1 / 2 ^ nat (k - 1)" by (simp only: y(2))
  have p1: "pow2 (- k) = 1 / 2 ^ nat k" using b(1) by (simp add: pow2_def)
  have p2: "pow2 (- k + 1) = 1 / 2 ^ nat (k - 1)"
    using b(1) by (cases "k = 1") (simp_all add: pow2_def)
  show ?thesis using A B by (simp only: e p1 p2)
qed


lemma round_ties_even_nearest:
  "\<bar>of_int (round_ties_even y) - y\<bar> \<le> 1 / 2"
proof -
  have "of_int \<lfloor>y\<rfloor> \<le> y" "y < of_int \<lfloor>y\<rfloor> + 1" by linarith+
  then show ?thesis by (auto simp add: round_ties_even_def Let_def)
qed

lemma fround_examples:
  "fround (Num 0) = Num 0" "fround (Num 1) = Num 1" "fround (Num 2) = Num 2"
  "fround (Num 3) = Num 3" "fround (Num 4) = Num 4" "fround (Num 5) = Num 5"
  "fround (Num 16777217) = Num 16777216" "fround (Num (- 16777219)) = Num (- 16777220)"
  "fround NaN = NaN" "fround PInf = PInf" "fround NInf = NInf"
  by (simp_all add: fround_def float_exponent_def pow2_def round_ties_even_def
      bit_length.simps Let_def)

lemma ta_set_first:
  "length d = la \<Longrightarrow>
     ta_set (replicate (la + lb) z) d 0 = Some (map fround d @ replicate lb z)"
  by (simp add: ta_set_def)

lemma ta_set_second:
  "length x = la \<Longrightarrow> length y = lb \<Longrightarrow> length d = lb \<Longrightarrow>
     ta_set (x @ y) d la = Some (x @ map fround d)"
  by (simp add: ta_set_def)

lemma concat_loop_eq:
  assumes "wf_buffer a" "wf_buffer b" "len = length_b a + length_b b" "ch \<le> channels"
  shows "concat_loop a b channels len ch data = Some (data @ map (concat_channel a b) [ch..<channels])"
  using assms
proof (induction a b channels len ch data rule: concat_loop.induct)
  case (1 a b channels len ch data)
  show ?case
  proof (cases "ch < channels")
    case False
    with "1.prems" show ?thesis by (simp add: concat_loop.simps[of a b])
  next
    case True
    let ?z = "replicate len (Num 0)"
    define cd1 where "cd1 = (if ch < numberOfChannels a then map fround (chans a ! ch)
                              else replicate (length_b a) (Num 0))
                              @ replicate (length_b b) (Num 0)"
    have s1: "(if ch < numberOfChannels a then ta_set ?z (getChannelData a ch) 0 else Some ?z) = Some cd1"
      using "1.prems" wf_buffer_nth[of a ch]
      by (simp add: cd1_def getChannelData_def ta_set_first replicate_add[symmetric])
    have s2: "(if ch < numberOfChannels b then ta_set cd1 (getChannelData b ch) (length_b a) else Some cd1)
                = Some (concat_channel a b ch)"
      using "1.prems" wf_buffer_nth[of a ch] wf_buffer_nth[of b ch]
      by (simp add: cd1_def getChannelData_def ta_set_second concat_channel_def)
    have step: "concat_loop a b channels len ch data
                  = concat_loop a b channels len (ch + 1) (data @ [concat_channel a b ch])"
      using True by (subst concat_loop.simps) (simp add: s1 s2)
    have "concat_loop a b channels len (ch + 1) (data @ [concat_channel a b ch])
            = Some ((data @ [concat_channel a b ch]) @ map (concat_channel a b) [ch + 1..<channels])"
      using True "1.prems" s1 s2 by (intro "1.IH") simp_all
    then show ?thesis using True step by (simp add: upt_rec[of ch])
  qed
qed

lemma concat2_eq:
  assumes "wf_buffer a" "wf_buffer b"
  shows "concat2 a b =
           Some \<lparr>numberOfChannels = max (numberOfChannels a) (numberOfChannels b),
                 length_b = length_b a + length_b b,
                 sampleRate = max (sampleRate a) (sampleRate b),
                 chans = map (concat_channel a b) [0..<max (numberOfChannels a) (numberOfChannels b)]\<rparr>"
proof -
  let ?n = "max (numberOfChannels a) (numberOfChannels b)"
  have pos: "0 < ?n" using assms by (simp add: wf_buffer_def less_max_iff_disj)
  have cl: "length (concat_channel a b c) = length_b a + length_b b" for c
    using wf_buffer_nth[OF assms(1), of c] wf_buffer_nth[OF assms(2), of c]
    by (simp add: concat_channel_def)
  have "[0..<?n] = 0 # [1..<?n]" using pos by (simp add: upt_rec)
  then have "(case map (concat_channel a b) [0..<?n] of [] \<Rightarrow> 0 | d # _ \<Rightarrow> length d)
               = length_b a + length_b b"
    by (simp add: cl)
  then show ?thesis
    using concat_loop_eq[OF assms refl, of 0 ?n "[]"]
    by (simp add: concat2_def AudioBuffer_data_def Let_def)
qed

lemma concat2_wf:
  assumes "wf_buffer a" "wf_buffer b"
  shows "\<exists>r. concat2 a b = Some r \<and> wf_buffer r"
proof -
  have cl: "length (concat_channel a b c) = length_b a + length_b b" for c
    using wf_buffer_nth[OF assms(1), of c] wf_buffer_nth[OF assms(2), of c]
    by (simp add: concat_channel_def)
  show ?thesis
    using assms by (simp add: concat2_eq wf_buffer_def list_all_iff cl less_max_iff_disj)
qed

lemma foldl_bind_None: "foldl (\<lambda>acc x. Option.bind acc (\<lambda>r. f r x)) None xs = None"
  by (induction xs) simp_all

lemma concat_walk_foldl:
  "concat_walk r xs = foldl (\<lambda>acc x. Option.bind acc (\<lambda>r'. concat2 r' x)) (Some r) xs"
proof (induction xs arbitrary: r)
  case Nil
  then show ?case by simp
next
  case (Cons x xs)
  then show ?case by (cases "concat2 r x") (simp_all add: foldl_bind_None)
qed

lemma concat_walk_wf:
  assumes "wf_buffer r" "\<forall>x \<in> set xs. wf_buffer x"
  shows "\<exists>r'. concat_walk r xs = Some r' \<and> wf_buffer r'"
  using assms
proof (induction xs arbitrary: r)
  case Nil
  then show ?case by simp
next
  case (Cons x xs)
  from concat2_wf[of r x] Cons.prems obtain r1 where r1: "concat2 r x = Some r1" "wf_buffer r1"
    by auto
  with Cons.IH[of r1] Cons.prems show ?case by simp
qed


lemma concat_channel_nth:
  assumes "wf_buffer a" "wf_buffer b"
  shows "i < length_b a \<Longrightarrow>
           concat_channel a b c ! i
             = (if c < numberOfChannels a then fround (chans a ! c ! i) else Num 0)"
    and "i < length_b b \<Longrightarrow>
           concat_channel a b c ! (length_b a + i)
             = (if c < numberOfChannels b then fround (chans b ! c ! i) else Num 0)"
  using wf_buffer_nth[OF assms(1), of c] wf_buffer_nth[OF assms(2), of c]
  by (simp_all add: concat_channel_def nth_append)

text \<open>
  Claim C5, as amended. For two buffers \<open>concat(a, b)\<close> returns a buffer with the larger
  of the two channel counts, the sum of the two lengths and the larger of the two sample
  rates; in each of its channels the indices below \<open>a.length\<close> hold the samples of the
  channel of \<open>a\<close> and the indices from \<open>a.length\<close> on hold the samples of the channel of
  \<open>b\<close>, each rounded to a 32-bit float, with zeros over the span of an input that has no
  such channel. With more than two arguments the result is the left fold of the pairwise
  call over the arguments, and it exists whenever every argument is a buffer of the
  contract.
\<close>

theorem concat_pairwise_and_fold:
  assumes "wf_buffer a" "wf_buffer b"
  shows "(\<exists>r. concat_buf [a, b] = Some r
            \<and> numberOfChannels r = max (numberOfChannels a) (numberOfChannels b)
            \<and> length_b r = length_b a + length_b b
            \<and> sampleRate r = max (sampleRate a) (sampleRate b)
            \<and> wf_buffer r
            \<and> (\<forall>c < numberOfChannels r.
                  (\<forall>i < length_b a. chans r ! c ! i
                      = (if c < numberOfChannels a then fround (chans a ! c ! i) else Num 0))
                \<and> (\<forall>i < length_b b. chans r ! c ! (length_b a + i)
                      = (if c < numberOfChannels b then fround (chans b ! c ! i) else Num 0))))
         \<and> (2 < length args \<longrightarrow>
               concat_buf args
                 = foldl (\<lambda>acc x. Option.bind acc (\<lambda>r. concat_buf [r, x])) (Some (hd args)) (tl args))
         \<and> (2 < length args \<and> (\<forall>x \<in> set args. wf_buffer x) \<longrightarrow>
               (\<exists>r. concat_buf args = Some r \<and> wf_buffer r))"
proof (intro conjI impI)
  let ?r = "\<lparr>numberOfChannels = max (numberOfChannels a) (numberOfChannels b),
             length_b = length_b a + length_b b,
             sampleRate = max (sampleRate a) (sampleRate b),
             chans = map (concat_channel a b) [0..<max (numberOfChannels a) (numberOfChannels b)]\<rparr>"
  have r: "concat_buf [a, b] = Some ?r" by (simp add: concat_buf_def concat2_eq[OF assms])
  moreover have "wf_buffer ?r" using concat2_wf[OF assms] by (simp add: concat2_eq[OF assms])
  ultimately show "\<exists>r. concat_buf [a, b] = Some r
            \<and> numberOfChannels r = max (numberOfChannels a) (numberOfChannels b)
            \<and> length_b r = length_b a + length_b b
            \<and> sampleRate r = max (sampleRate a) (sampleRate b)
            \<and> wf_buffer r
            \<and> (\<forall>c < numberOfChannels r.
                  (\<forall>i < length_b a. chans r ! c ! i
                      = (if c < numberOfChannels a then fround (chans a ! c ! i) else Num 0))
                \<and> (\<forall>i < length_b b. chans r ! c ! (length_b a + i)
                      = (if c < numberOfChannels b then fround (chans b ! c ! i) else Num 0)))"
    by (simp add: concat_channel_nth[OF assms])
next
  assume "2 < length args"
  moreover have "(\<lambda>r. concat_buf [r, x]) = (\<lambda>r. concat2 r x)" for x
    by (simp add: concat_buf_def)
  ultimately show "concat_buf args
      = foldl (\<lambda>acc x. Option.bind acc (\<lambda>r. concat_buf [r, x])) (Some (hd args)) (tl args)"
    by (simp add: concat_buf_def concat_walk_foldl)
next
  assume a: "2 < length args \<and> (\<forall>x \<in> set args. wf_buffer x)"
  then obtain x xs where args: "args = x # xs" by (cases args) auto
  with a concat_walk_wf[of x xs] show "\<exists>r. concat_buf args = Some r \<and> wf_buffer r"
    by (simp add: concat_buf_def)
qed

theorem concat_pairwise_and_fold_witness:
  "concat_buf [\<lparr>numberOfChannels = 1, length_b = 2, sampleRate = 44100, chans = [[Num 1, Num 2]]\<rparr>,
               \<lparr>numberOfChannels = 1, length_b = 3, sampleRate = 44100, chans = [[Num 3, Num 4, Num 5]]\<rparr>]
     = Some \<lparr>numberOfChannels = 1, length_b = 5, sampleRate = 44100,
              chans = [[Num 1, Num 2, Num 3, Num 4, Num 5]]\<rparr>
   \<and> (\<exists>r. concat_buf
              [\<lparr>numberOfChannels = 1, length_b = 2, sampleRate = 44100, chans = [[Num 1, Num 2]]\<rparr>,
               \<lparr>numberOfChannels = 1, length_b = 3, sampleRate = 44100, chans = [[Num 3, Num 4, Num 5]]\<rparr>,
               \<lparr>numberOfChannels = 1, length_b = 2, sampleRate = 44100, chans = [[Num 1, Num 2]]\<rparr>]
            = Some r \<and> wf_buffer r)"
proof -
  let ?a = "\<lparr>numberOfChannels = 1, length_b = 2, sampleRate = 44100, chans = [[Num 1, Num 2]]\<rparr>"
  let ?b = "\<lparr>numberOfChannels = 1, length_b = 3, sampleRate = 44100, chans = [[Num 3, Num 4, Num 5]]\<rparr>"
  have wa: "wf_buffer ?a" and wb: "wf_buffer ?b" by (simp_all add: wf_buffer_def)
  note inst = concat_pairwise_and_fold[OF wa wb, of "[?a, ?b, ?a]"]
  have three: "\<exists>r. concat_buf [?a, ?b, ?a] = Some r \<and> wf_buffer r"
    using inst[THEN conjunct2, THEN conjunct2] wa wb by simp
  from inst[THEN conjunct1]
  obtain r where r: "concat_buf [?a, ?b] = Some r" "numberOfChannels r = 1" "length_b r = 5"
    "sampleRate r = 44100" "wf_buffer r"
    and c: "\<forall>i < 2. chans r ! 0 ! i = fround ([Num 1, Num 2] ! i)"
      "\<forall>i < 3. chans r ! 0 ! (2 + i) = fround ([Num 3, Num 4, Num 5] ! i)"
    by auto
  from r obtain d where d: "chans r = [d]" "length d = 5"
    by (auto simp add: wf_buffer_def length_Suc_conv)
  have "d ! 0 = Num 1" "d ! 1 = Num 2"
    using c(1)[rule_format, of 0] c(1)[rule_format, of 1] d by (simp_all add: fround_examples)
  moreover have "d ! 2 = Num 3" "d ! 3 = Num 4" "d ! 4 = Num 5"
    using c(2)[rule_format, of 0] c(2)[rule_format, of 1] c(2)[rule_format, of 2] d
    by (simp_all add: fround_examples)
  ultimately have "d = [Num 1, Num 2, Num 3, Num 4, Num 5]"
    using d(2) by (intro nth_equalityI) (auto simp add: less_Suc_eq numeral_eq_Suc)
  then have "r = \<lparr>numberOfChannels = 1, length_b = 5, sampleRate = 44100,
              chans = [[Num 1, Num 2, Num 3, Num 4, Num 5]]\<rparr>"
    using r d by (cases r) simp
  then show ?thesis using r(1) three by simp
qed

text \<open>
  Claim C5, as stated, puts the data of \<open>a\<close> and \<open>b\<close> into the result as they are. The
  result is built on \<open>Float32Array\<close>s, and a sample of a wider buffer that is no 32-bit
  float comes out rounded: \<open>[16777217, 3]\<close> followed by \<open>[-16777219]\<close> gives
  \<open>[16777216, 3, -16777220]\<close>.
\<close>

theorem concat_rounds_to_float32:
  "concat_buf [\<lparr>numberOfChannels = 1, length_b = 2, sampleRate = 44100,
                 chans = [[Num 16777217, Num 3]]\<rparr>,
               \<lparr>numberOfChannels = 1, length_b = 1, sampleRate = 44100,
                 chans = [[Num (- 16777219)]]\<rparr>]
     = Some \<lparr>numberOfChannels = 1, length_b = 3, sampleRate = 44100,
              chans = [[Num 16777216, Num 3, Num (- 16777220)]]\<rparr>"
  by (simp add: concat_buf_def concat2_def concat_loop.simps AudioBuffer_data_def ta_set_def
      getChannelData_def fround_examples)

section \<open>Properties of resize\<close>

lemma AudioBuffer_length_wf:
  "0 < defaultChannels df \<Longrightarrow> wf_buffer (AudioBuffer_length df n)"
  by (simp add: AudioBuffer_length_def wf_buffer_def list_all_iff)

lemma resize_grow:
  assumes "wf_buffer b" "int (length_b b) \<le> n" "0 < defaultChannels df"
  shows "\<exists>r. resize df b n = Some r
           \<and> numberOfChannels r = max (numberOfChannels b) (defaultChannels df)
           \<and> sampleRate r = max (sampleRate b) (defaultRate df)
           \<and> length_b r = nat n
           \<and> (\<forall>c < numberOfChannels r. \<forall>i < nat n.
                 chans r ! c ! i
                   = (if c < numberOfChannels b \<and> i < length_b b
                      then fround (chans b ! c ! i) else Num 0))"
proof -
  let ?z = "AudioBuffer_length df (n - int (length_b b))"
  have wz: "wf_buffer ?z" using assms(3) by (rule AudioBuffer_length_wf)
  have lz: "length_b ?z = nat n - length_b b" "numberOfChannels ?z = defaultChannels df"
    "sampleRate ?z = defaultRate df"
    using assms(2) by (simp_all add: AudioBuffer_length_def nat_diff_distrib)
  have cz: "chans ?z ! c ! i = Num 0" if "c < defaultChannels df" "i < nat n - length_b b" for c i
    using that assms(2) by (simp add: AudioBuffer_length_def nat_diff_distrib)
  have r: "resize df b n = concat2 b ?z" using assms(2) by (simp add: resize_def concat_buf_def)
  have ch: "concat_channel b ?z c ! i
              = (if c < numberOfChannels b \<and> i < length_b b
                 then fround (chans b ! c ! i) else Num 0)"
    if "i < nat n" for c i
  proof (cases "i < length_b b")
    case True
    then show ?thesis using concat_channel_nth(1)[OF assms(1) wz, of i c] by simp
  next
    case False
    then have i: "i = length_b b + (i - length_b b)" "i - length_b b < length_b ?z"
      using that by (simp_all add: lz)
    have "concat_channel b ?z c ! (length_b b + (i - length_b b)) = Num 0"
      using concat_channel_nth(2)[OF assms(1) wz i(2), of c] cz[of c "i - length_b b"] i(2)
      by (simp add: lz fround_examples)
    then show ?thesis using False i(1) by simp
  qed
  show ?thesis
    using assms(2) ch by (simp add: r concat2_eq[OF assms(1) wz] lz)
qed

lemma resize_grow_rate_not_preserved:
  assumes "0 < defaultRate df" "0 < defaultChannels df"
  shows "\<exists>b r. wf_buffer b \<and> 0 < sampleRate b \<and> resize df b (int (length_b b) + 1) = Some r
           \<and> sampleRate r \<noteq> sampleRate b"
proof -
  let ?b = "\<lparr>numberOfChannels = 1, length_b = 0, sampleRate = defaultRate df / 2, chans = [[]]\<rparr>"
  have wb: "wf_buffer ?b" by (simp add: wf_buffer_def)
  from resize_grow[OF wb _ assms(2), of "int (length_b ?b) + 1"] assms
  obtain r where "resize df ?b (int (length_b ?b) + 1) = Some r"
    "sampleRate r = max (sampleRate ?b) (defaultRate df)" by auto
  then show ?thesis using wb assms by (intro exI[of _ ?b] exI[of _ r]) (simp add: max_def)
qed

text \<open>
  Claim C1. Growing a buffer should keep its channel count and sample rate. The grow branch
  builds the padding with \<open>new AudioBuffer(length - buffer.length)\<close>, which is given
  neither, and \<open>concat\<close> takes the larger channel count and the larger rate. With
  fallbacks of 2 channels and 44100 Hz a one-channel buffer
  \<open>[1, 2]\<close> at 22050 Hz resized to 3 comes back with 2 channels at 44100 Hz. The length
  is as the claim says and the samples are those of the buffer, as 32-bit floats, followed
  by zeros (\<open>resize_grow\<close>), and no positive fallback rate keeps the rate of every buffer
  (\<open>resize_grow_rate_not_preserved\<close>).
\<close>

theorem resize_grow_changes_channels_and_rate:
  "resize \<lparr>defaultChannels = 2, defaultRate = 44100\<rparr>
      \<lparr>numberOfChannels = 1, length_b = 2, sampleRate = 22050, chans = [[Num 1, Num 2]]\<rparr> 3
     = Some \<lparr>numberOfChannels = 2, length_b = 3, sampleRate = 44100,
              chans = [[Num 1, Num 2, Num 0], [Num 0, Num 0, Num 0]]\<rparr>"
  by (simp add: resize_def concat_buf_def concat2_def concat_loop.simps AudioBuffer_length_def
      AudioBuffer_data_def ta_set_def getChannelData_def numeral_2_eq_2 numeral_3_eq_3
      fround_examples)

section \<open>Properties of equal\<close>

lemma strict_neq_Some: "strict_neq (Some x) (Some y) = (\<not> same_sample x y)"
  by (auto simp add: strict_neq_def same_sample_def)

lemma equal_samples_None:
  "equal_samples dataA dataB i = None \<longleftrightarrow>
     (\<forall>j. i \<le> j \<and> j < length dataA \<longrightarrow> \<not> strict_neq (rd dataA (int j)) (rd dataB (int j)))"
proof (induction dataA dataB i rule: equal_samples.induct)
  case (1 dataA dataB i)
  show ?case
  proof (cases "i < length dataA")
    case False
    then show ?thesis by (auto simp add: equal_samples.simps[of dataA dataB i])
  next
    case True
    show ?thesis
    proof (cases "strict_neq (rd dataA (int i)) (rd dataB (int i))")
      case neq: True
      then have "equal_samples dataA dataB i = Some i"
        using True by (simp add: equal_samples.simps[of dataA dataB i])
      then show ?thesis using True neq by auto
    next
      case eq: False
      then have "equal_samples dataA dataB i = equal_samples dataA dataB (i + 1)"
        using True by (simp add: equal_samples.simps[of dataA dataB i])
      moreover have "(\<forall>j. i \<le> j \<and> j < length dataA \<longrightarrow> \<not> strict_neq (rd dataA (int j)) (rd dataB (int j)))
           \<longleftrightarrow> (\<forall>j. i + 1 \<le> j \<and> j < length dataA \<longrightarrow> \<not> strict_neq (rd dataA (int j)) (rd dataB (int j)))"
        using eq by (metis Suc_eq_plus1 Suc_leI le_neq_implies_less Suc_leD)
      ultimately show ?thesis using "1.IH"[OF True eq] by simp
    qed
  qed
qed

lemma equal_samples_Some:
  "equal_samples dataA dataB i = Some k \<Longrightarrow>
     i \<le> k \<and> k < length dataA \<and> strict_neq (rd dataA (int k)) (rd dataB (int k))
     \<and> (\<forall>j. i \<le> j \<and> j < k \<longrightarrow> \<not> strict_neq (rd dataA (int j)) (rd dataB (int j)))"
proof (induction dataA dataB i rule: equal_samples.induct)
  case (1 dataA dataB i)
  show ?case
  proof (cases "i < length dataA")
    case False
    then show ?thesis using "1.prems" by (simp add: equal_samples.simps[of dataA dataB i])
  next
    case True
    show ?thesis
    proof (cases "strict_neq (rd dataA (int i)) (rd dataB (int i))")
      case neq: True
      then have "k = i"
        using True "1.prems" by (simp add: equal_samples.simps[of dataA dataB i])
      then show ?thesis using True neq by auto
    next
      case eq: False
      then have "equal_samples dataA dataB (i + 1) = Some k"
        using True "1.prems" by (simp add: equal_samples.simps[of dataA dataB i])
      from "1.IH"[OF True eq this] have ih: "i + 1 \<le> k" "k < length dataA"
        "strict_neq (rd dataA (int k)) (rd dataB (int k))"
        "\<forall>j. i + 1 \<le> j \<and> j < k \<longrightarrow> \<not> strict_neq (rd dataA (int j)) (rd dataB (int j))"
        by simp_all
      have "\<forall>j. i \<le> j \<and> j < k \<longrightarrow> \<not> strict_neq (rd dataA (int j)) (rd dataB (int j))"
      proof (intro allI impI)
        fix j assume j: "i \<le> j \<and> j < k"
        show "\<not> strict_neq (rd dataA (int j)) (rd dataB (int j))"
        proof (cases "j = i")
          case True
          then show ?thesis using eq by simp
        next
          case False
          then have "i + 1 \<le> j \<and> j < k" using j by simp
          then show ?thesis using ih(4) by blast
        qed
      qed
      then show ?thesis using ih by simp
    qed
  qed
qed


lemma equal_channels_None:
  "equal_channels a b c = None \<longleftrightarrow>
     (\<forall>ch. c \<le> ch \<and> ch < numberOfChannels a \<longrightarrow>
        equal_samples (getChannelData a ch) (getChannelData b ch) 0 = None)"
proof (induction a b c rule: equal_channels.induct)
  case (1 a b c)
  show ?case
  proof (cases "c < numberOfChannels a")
    case False
    then show ?thesis by (auto simp add: equal_channels.simps[of a b c])
  next
    case True
    show ?thesis
    proof (cases "equal_samples (getChannelData a c) (getChannelData b c) 0")
      case (Some i)
      then have "equal_channels a b c = Some (c, i)"
        using True by (simp add: equal_channels.simps[of a b c])
      then show ?thesis using True Some by auto
    next
      case None
      then have "equal_channels a b c = equal_channels a b (c + 1)"
        using True by (simp add: equal_channels.simps[of a b c])
      moreover have "(\<forall>ch. c \<le> ch \<and> ch < numberOfChannels a \<longrightarrow>
            equal_samples (getChannelData a ch) (getChannelData b ch) 0 = None)
          \<longleftrightarrow> (\<forall>ch. c + 1 \<le> ch \<and> ch < numberOfChannels a \<longrightarrow>
            equal_samples (getChannelData a ch) (getChannelData b ch) 0 = None)"
        using None by (metis Suc_eq_plus1 Suc_leI le_neq_implies_less Suc_leD)
      ultimately show ?thesis using "1.IH"[OF True None] by simp
    qed
  qed
qed

lemma equal_channels_Some:
  "equal_channels a b c = Some (ch, i) \<Longrightarrow>
     c \<le> ch \<and> ch < numberOfChannels a
     \<and> equal_samples (getChannelData a ch) (getChannelData b ch) 0 = Some i
     \<and> (\<forall>ch'. c \<le> ch' \<and> ch' < ch \<longrightarrow>
           equal_samples (getChannelData a ch') (getChannelData b ch') 0 = None)"
proof (induction a b c rule: equal_channels.induct)
  case (1 a b c)
  show ?case
  proof (cases "c < numberOfChannels a")
    case False
    then show ?thesis using "1.prems" by (simp add: equal_channels.simps[of a b c])
  next
    case True
    show ?thesis
    proof (cases "equal_samples (getChannelData a c) (getChannelData b c) 0")
      case (Some k)
      then have "ch = c" "i = k"
        using True "1.prems" by (simp_all add: equal_channels.simps[of a b c])
      then show ?thesis using True Some by auto
    next
      case None
      then have "equal_channels a b (c + 1) = Some (ch, i)"
        using True "1.prems" by (simp add: equal_channels.simps[of a b c])
      from "1.IH"[OF True None this] have ih: "c + 1 \<le> ch" "ch < numberOfChannels a"
        "equal_samples (getChannelData a ch) (getChannelData b ch) 0 = Some i"
        "\<forall>ch'. c + 1 \<le> ch' \<and> ch' < ch \<longrightarrow>
           equal_samples (getChannelData a ch') (getChannelData b ch') 0 = None"
        by simp_all
      have "\<forall>ch'. c \<le> ch' \<and> ch' < ch \<longrightarrow>
           equal_samples (getChannelData a ch') (getChannelData b ch') 0 = None"
      proof (intro allI impI)
        fix ch' assume j: "c \<le> ch' \<and> ch' < ch"
        show "equal_samples (getChannelData a ch') (getChannelData b ch') 0 = None"
        proof (cases "ch' = c")
          case True
          then show ?thesis using None by simp
        next
          case False
          then have "c + 1 \<le> ch' \<and> ch' < ch" using j by simp
          then show ?thesis using ih(4) by blast
        qed
      qed
      then show ?thesis using ih by simp
    qed
  qed
qed

lemma equal_walk_adjacent:
  "equal_walk args = (\<forall>i. Suc i < length args \<longrightarrow> equal2 (args ! i) (args ! Suc i))"
proof (induction args rule: equal_walk.induct)
  case (1 x y rest)
  have "(\<forall>i. Suc i < length (x # y # rest) \<longrightarrow> equal2 ((x # y # rest) ! i) ((x # y # rest) ! Suc i))
      \<longleftrightarrow> equal2 x y \<and> (\<forall>i. Suc i < length (y # rest) \<longrightarrow> equal2 ((y # rest) ! i) ((y # rest) ! Suc i))"
    (is "?L \<longleftrightarrow> ?R")
  proof
    assume l: ?L
    have "equal2 x y" using l[rule_format, of 0] by simp
    moreover have "equal2 ((y # rest) ! i) ((y # rest) ! Suc i)" if "Suc i < length (y # rest)" for i
      using l[rule_format, of "Suc i"] that by simp
    ultimately show ?R by blast
  next
    assume r: ?R
    show ?L
    proof (intro allI impI)
      fix i assume "Suc i < length (x # y # rest)"
      then show "equal2 ((x # y # rest) ! i) ((x # y # rest) ! Suc i)"
        using r by (cases i) auto
    qed
  qed
  then show ?case using 1 by auto
qed simp_all

lemma rd_nth: "i < length d \<Longrightarrow> rd d (int i) = Some (d ! i)"
  by (simp add: rd_def)

lemma equal_samples_wf:
  assumes "length dA = l" "length dB = l"
  shows "equal_samples dA dB 0 = None \<longleftrightarrow> (\<forall>i < l. same_sample (dA ! i) (dB ! i))"
    and "equal_samples dA dB 0 = Some k \<Longrightarrow>
           k < l \<and> \<not> same_sample (dA ! k) (dB ! k) \<and> (\<forall>i < k. same_sample (dA ! i) (dB ! i))"
proof -
  show "equal_samples dA dB 0 = None \<longleftrightarrow> (\<forall>i < l. same_sample (dA ! i) (dB ! i))"
    using assms by (simp add: equal_samples_None rd_nth strict_neq_Some)
  assume "equal_samples dA dB 0 = Some k"
  from equal_samples_Some[OF this] assms
  have k: "k < l" "strict_neq (rd dA (int k)) (rd dB (int k))"
    and e: "\<And>j. j < k \<Longrightarrow> \<not> strict_neq (rd dA (int j)) (rd dB (int j))"
    by simp_all
  have "same_sample (dA ! i) (dB ! i)" if "i < k" for i
  proof -
    have "i < l" using that k(1) by simp
    then show ?thesis using e[OF that] assms by (simp add: rd_nth strict_neq_Some)
  qed
  then show "k < l \<and> \<not> same_sample (dA ! k) (dB ! k) \<and> (\<forall>i < k. same_sample (dA ! i) (dB ! i))"
    using k assms by (simp add: rd_nth strict_neq_Some)
qed


lemma equal2_iff:
  assumes "wf_buffer a" "wf_buffer b"
  shows "equal2 a b \<longleftrightarrow>
           length_b a = length_b b \<and> numberOfChannels a = numberOfChannels b
           \<and> (\<forall>c < numberOfChannels a. \<forall>i < length_b a.
                 same_sample (chans a ! c ! i) (chans b ! c ! i))"
proof (cases "length_b a = length_b b \<and> numberOfChannels a = numberOfChannels b")
  case False
  then show ?thesis by (auto simp add: equal2_def)
next
  case True
  have "equal_samples (getChannelData a c) (getChannelData b c) 0 = None
          \<longleftrightarrow> (\<forall>i < length_b a. same_sample (chans a ! c ! i) (chans b ! c ! i))"
    if "c < numberOfChannels a" for c
    using that True wf_buffer_nth[OF assms(1), of c] wf_buffer_nth[OF assms(2), of c]
    by (simp add: getChannelData_def equal_samples_wf(1))
  then have "equal_channels a b 0 = None
          \<longleftrightarrow> (\<forall>c < numberOfChannels a. \<forall>i < length_b a.
                 same_sample (chans a ! c ! i) (chans b ! c ! i))"
    by (simp add: equal_channels_None)
  then show ?thesis using True by (simp add: equal2_def)
qed

lemma equal_channels_first_mismatch:
  assumes "wf_buffer a" "wf_buffer b"
    and "length_b a = length_b b" "numberOfChannels a = numberOfChannels b"
    and "equal_channels a b 0 = Some (c, i)"
  shows "c < numberOfChannels a \<and> i < length_b a
         \<and> \<not> same_sample (chans a ! c ! i) (chans b ! c ! i)
         \<and> (\<forall>c' i'. c' < numberOfChannels a \<and> i' < length_b a \<and> (c' < c \<or> c' = c \<and> i' < i)
               \<longrightarrow> same_sample (chans a ! c' ! i') (chans b ! c' ! i'))"
proof -
  have len: "length (chans a ! k) = length_b a" "length (chans b ! k) = length_b a"
    if "k < numberOfChannels a" for k
    using that assms(3,4) wf_buffer_nth[OF assms(1), of k] wf_buffer_nth[OF assms(2), of k]
    by simp_all
  from equal_channels_Some[OF assms(5)]
  have c: "c < numberOfChannels a"
    and s: "equal_samples (chans a ! c) (chans b ! c) 0 = Some i"
    and e: "\<And>c'. c' < c \<Longrightarrow> equal_samples (chans a ! c') (chans b ! c') 0 = None"
    by (simp_all add: getChannelData_def)
  from equal_samples_wf(2)[OF len[OF c] s]
  have i: "i < length_b a" "\<not> same_sample (chans a ! c ! i) (chans b ! c ! i)"
    "\<And>i'. i' < i \<Longrightarrow> same_sample (chans a ! c ! i') (chans b ! c ! i')"
    by simp_all
  have "same_sample (chans a ! c' ! i') (chans b ! c' ! i')"
    if "c' < numberOfChannels a \<and> i' < length_b a \<and> (c' < c \<or> c' = c \<and> i' < i)" for c' i'
  proof (cases "c' < c")
    case True
    then have "c' < numberOfChannels a" using c by simp
    from equal_samples_wf(1)[OF len[OF this]] e[OF True] that show ?thesis by simp
  next
    case False
    with that i(3) show ?thesis by auto
  qed
  then show ?thesis using c i by blast
qed

text \<open>
  Claim C7, as amended. For two buffers \<open>equal\<close> is true exactly when the lengths agree,
  the channel counts agree and at every channel and index the two samples are equal under
  the strict comparison of the code: no tolerance, and a NaN sample equal to nothing, itself
  included. For more than two arguments it is true exactly when every adjacent pair is
  equal. When the shapes agree, the scan returns false at the first pair of samples that
  differ in channel-major, index-minor order: every place before the one where it returns
  holds equal samples, and the scan ends there.
\<close>

theorem equal_pairwise_chained_first_mismatch:
  assumes "wf_buffer a" "wf_buffer b"
  shows "equal_buf [a, b]
           = Some (length_b a = length_b b \<and> numberOfChannels a = numberOfChannels b
                   \<and> (\<forall>c < numberOfChannels a. \<forall>i < length_b a.
                         same_sample (chans a ! c ! i) (chans b ! c ! i)))
         \<and> (2 < length args \<longrightarrow>
               equal_buf args
                 = Some (\<forall>i. Suc i < length args \<longrightarrow> equal_buf [args ! i, args ! Suc i] = Some True))
         \<and> (length_b a = length_b b \<and> numberOfChannels a = numberOfChannels b \<longrightarrow>
               (case equal_channels a b 0 of
                  None \<Rightarrow> equal_buf [a, b] = Some True
                | Some (c, i) \<Rightarrow>
                    equal_buf [a, b] = Some False
                    \<and> c < numberOfChannels a \<and> i < length_b a
                    \<and> \<not> same_sample (chans a ! c ! i) (chans b ! c ! i)
                    \<and> (\<forall>c' i'. c' < numberOfChannels a \<and> i' < length_b a
                                  \<and> (c' < c \<or> c' = c \<and> i' < i)
                          \<longrightarrow> same_sample (chans a ! c' ! i') (chans b ! c' ! i'))))"
proof (intro conjI impI)
  show "equal_buf [a, b]
           = Some (length_b a = length_b b \<and> numberOfChannels a = numberOfChannels b
                   \<and> (\<forall>c < numberOfChannels a. \<forall>i < length_b a.
                         same_sample (chans a ! c ! i) (chans b ! c ! i)))"
    by (simp add: equal_buf_def equal2_iff[OF assms])
next
  assume "2 < length args"
  then show "equal_buf args
      = Some (\<forall>i. Suc i < length args \<longrightarrow> equal_buf [args ! i, args ! Suc i] = Some True)"
    by (simp add: equal_buf_def equal_walk_adjacent)
next
  assume shape: "length_b a = length_b b \<and> numberOfChannels a = numberOfChannels b"
  show "case equal_channels a b 0 of
          None \<Rightarrow> equal_buf [a, b] = Some True
        | Some (c, i) \<Rightarrow>
            equal_buf [a, b] = Some False
            \<and> c < numberOfChannels a \<and> i < length_b a
            \<and> \<not> same_sample (chans a ! c ! i) (chans b ! c ! i)
            \<and> (\<forall>c' i'. c' < numberOfChannels a \<and> i' < length_b a
                          \<and> (c' < c \<or> c' = c \<and> i' < i)
                  \<longrightarrow> same_sample (chans a ! c' ! i') (chans b ! c' ! i'))"
  proof (cases "equal_channels a b 0")
    case None
    then show ?thesis using shape by (simp add: equal_buf_def equal2_def)
  next
    case (Some p)
    obtain c i where p: "p = (c, i)" by (cases p)
    have "equal_buf [a, b] = Some False"
      using Some shape by (simp add: equal_buf_def equal2_def)
    with equal_channels_first_mismatch[OF assms, of c i] Some p shape
    show ?thesis by simp
  qed
qed


theorem equal_pairwise_chained_first_mismatch_witness:
  "equal_buf [\<lparr>numberOfChannels = 1, length_b = 3, sampleRate = 44100, chans = [[Num 1, Num 2, Num 3]]\<rparr>,
              \<lparr>numberOfChannels = 1, length_b = 3, sampleRate = 44100, chans = [[Num 1, Num 2, Num 4]]\<rparr>]
     = Some False
   \<and> equal_channels
         \<lparr>numberOfChannels = 1, length_b = 3, sampleRate = 44100, chans = [[Num 1, Num 2, Num 3]]\<rparr>
         \<lparr>numberOfChannels = 1, length_b = 3, sampleRate = 44100, chans = [[Num 1, Num 2, Num 4]]\<rparr> 0
     = Some (0, 2)
   \<and> equal_buf [\<lparr>numberOfChannels = 1, length_b = 3, sampleRate = 44100, chans = [[Num 1, Num 2, Num 3]]\<rparr>,
              \<lparr>numberOfChannels = 1, length_b = 3, sampleRate = 44100, chans = [[Num 1, Num 2, Num 3]]\<rparr>,
              \<lparr>numberOfChannels = 1, length_b = 3, sampleRate = 44100, chans = [[Num 1, Num 2, Num 3]]\<rparr>]
     = Some True"
proof -
  let ?a = "\<lparr>numberOfChannels = 1, length_b = 3, sampleRate = 44100, chans = [[Num 1, Num 2, Num 3]]\<rparr>"
  let ?b = "\<lparr>numberOfChannels = 1, length_b = 3, sampleRate = 44100, chans = [[Num 1, Num 2, Num 4]]\<rparr>"
  have wa: "wf_buffer ?a" and wb: "wf_buffer ?b" by (simp_all add: wf_buffer_def)
  have ec: "equal_channels ?a ?b 0 = Some (0, 2)"
    by (simp add: equal_channels.simps equal_samples.simps getChannelData_def rd_def strict_neq_def)
  have ab: "equal_buf [?a, ?b] = Some False"
    using equal_pairwise_chained_first_mismatch[OF wa wb, of "[]", THEN conjunct2, THEN conjunct2] ec
    by simp
  have aa: "equal_buf [?a, ?a] = Some True"
    using equal_pairwise_chained_first_mismatch[OF wa wa, of "[]", THEN conjunct1]
    by (simp add: same_sample_def numeral_3_eq_3 less_Suc_eq)
  have "(\<forall>i. Suc i < length [?a, ?a, ?a] \<longrightarrow> equal_buf [[?a, ?a, ?a] ! i, [?a, ?a, ?a] ! Suc i] = Some True)"
    using aa by (auto simp add: less_Suc_eq)
  then have aaa: "equal_buf [?a, ?a, ?a] = Some True"
    using equal_pairwise_chained_first_mismatch[OF wa wb, of "[?a, ?a, ?a]", THEN conjunct2, THEN conjunct1]
    by simp
  show ?thesis using ab ec aaa by simp
qed

text \<open>
  Claim C7, as stated, makes two buffers equal whenever their shapes and all their samples
  are the same. A buffer that holds a NaN has the same samples as itself, and \<open>equal\<close>
  answers false for it.
\<close>

theorem equal_nan_buffer_differs_from_itself:
  "equal_buf [\<lparr>numberOfChannels = 1, length_b = 2, sampleRate = 44100, chans = [[Num 1, NaN]]\<rparr>,
              \<lparr>numberOfChannels = 1, length_b = 2, sampleRate = 44100, chans = [[Num 1, NaN]]\<rparr>]
     = Some False"
  by (simp add: equal_buf_def equal2_def equal_channels.simps equal_samples.simps
      getChannelData_def rd_def strict_neq_def)

section \<open>Rotating there and back\<close>

lemma rotate_buf_inverse:
  assumes "wf_buffer b" "- int (length_b b) \<le> k" "k \<le> int (length_b b)"
  shows "rotate_buf (rotate_buf (clone b) k) (- k) = b"
proof -
  have len: "length (chans b) = numberOfChannels b"
    and all: "\<forall>d \<in> set (chans b). length d = length_b b"
    using assms(1) by (simp_all add: wf_buffer_def list_all_iff)
  let ?b1 = "rotate_buf b k"
  have b1: "?b1 = b\<lparr>chans := map (\<lambda>d. rotate_channel d k) (chans b)\<rparr>"
    using len by (rule rotate_buf_chans)
  have len1: "length (chans ?b1) = numberOfChannels ?b1" using len by (simp add: b1)
  have "rotate_buf ?b1 (- k) = ?b1\<lparr>chans := map (\<lambda>d. rotate_channel d (- k)) (chans ?b1)\<rparr>"
    using len1 by (rule rotate_buf_chans)
  also have "\<dots> = b\<lparr>chans := map (\<lambda>d. rotate_channel (rotate_channel d k) (- k)) (chans b)\<rparr>"
    by (simp add: b1 comp_def)
  also have "map (\<lambda>d. rotate_channel (rotate_channel d k) (- k)) (chans b) = map (\<lambda>d. d) (chans b)"
    using all assms(2,3) by (intro map_cong refl rotate_channel_inverse) simp_all
  finally show ?thesis by (simp add: clone_def)
qed

text \<open>
  Claim C2, as amended. For a buffer of the contract that holds no NaN sample and an
  integer \<open>k\<close> with \<open>|k|\<close> at most the channel length (negative, zero or positive),
  rotating a clone by \<open>k\<close> and then by \<open>-k\<close> gives a buffer that \<open>equal\<close> finds equal
  to the original.
\<close>

theorem rotate_there_and_back:
  assumes "wf_buffer b" "- int (length_b b) \<le> k" "k \<le> int (length_b b)"
    and "\<forall>d \<in> set (chans b). NaN \<notin> set d"
  shows "equal_buf [rotate_buf (rotate_buf (clone b) k) (- k), b] = Some True"
proof -
  have "same_sample (chans b ! c ! i) (chans b ! c ! i)"
    if "c < numberOfChannels b" "i < length_b b" for c i
  proof -
    have "chans b ! c \<in> set (chans b)" "length (chans b ! c) = length_b b"
      using that(1) assms(1) by (simp_all add: wf_buffer_def list_all_length)
    then have "chans b ! c ! i \<in> set (chans b ! c)" using that(2) by simp
    then show ?thesis using assms(4) \<open>chans b ! c \<in> set (chans b)\<close>
      by (auto simp add: same_sample_def)
  qed
  then have "equal2 b b" by (simp add: equal2_iff[OF assms(1) assms(1)])
  then show ?thesis
    by (simp add: rotate_buf_inverse[OF assms(1-3)] equal_buf_def)
qed

theorem rotate_there_and_back_witness:
  "equal_buf [rotate_buf (rotate_buf (clone
       \<lparr>numberOfChannels = 1, length_b = 4, sampleRate = 44100,
         chans = [[Num 1, Num 2, Num 3, Num 4]]\<rparr>) (- 3)) (- (- 3)),
       \<lparr>numberOfChannels = 1, length_b = 4, sampleRate = 44100,
         chans = [[Num 1, Num 2, Num 3, Num 4]]\<rparr>] = Some True"
  using rotate_there_and_back
    [of "\<lparr>numberOfChannels = 1, length_b = 4, sampleRate = 44100,
         chans = [[Num 1, Num 2, Num 3, Num 4]]\<rparr>" "- 3"]
  by (simp add: wf_buffer_def)

text \<open>
  Claim C2, as stated, covers every buffer. \<open>equal\<close> compares with \<open>!==\<close>, under which NaN
  differs from itself: for the buffer \<open>[NaN, 2]\<close> and \<open>k = 0\<close> the rotations change nothing
  and \<open>equal\<close> still answers false.
\<close>

theorem rotate_there_and_back_fails:
  "equal_buf [rotate_buf (rotate_buf (clone
       \<lparr>numberOfChannels = 1, length_b = 2, sampleRate = 44100, chans = [[NaN, Num 2]]\<rparr>) 0) (- 0),
       \<lparr>numberOfChannels = 1, length_b = 2, sampleRate = 44100, chans = [[NaN, Num 2]]\<rparr>]
     = Some False"
  by (simp add: equal_buf_def equal2_def equal_channels.simps equal_samples.simps clone_def
      rotate_buf_def rotate_channels.simps rotate_channel_def rotate_loop.simps
      getChannelData_def setChannelData_def rotate_idx_def js_rem_def wr_def rd_def to_number_def
      strict_neq_def)

text \<open>
  Beyond the channel length the second rotation, by \<open>-5\<close> on four samples, drops a sample, and
  the round trip over \<open>k = 5\<close> does not give the original back.
\<close>

lemma rotate_there_and_back_beyond_length:
  "equal_buf [rotate_buf (rotate_buf (clone
       \<lparr>numberOfChannels = 1, length_b = 4, sampleRate = 44100,
         chans = [[Num 1, Num 2, Num 3, Num 4]]\<rparr>) 5) (- 5),
       \<lparr>numberOfChannels = 1, length_b = 4, sampleRate = 44100,
         chans = [[Num 1, Num 2, Num 3, Num 4]]\<rparr>]
     = Some False"
  by (simp add: equal_buf_def equal2_def equal_channels.simps equal_samples.simps clone_def
      rotate_buf_def rotate_channels.simps rotate_channel_def rotate_loop.simps
      getChannelData_def setChannelData_def rotate_idx_def js_rem_def wr_def rd_def to_number_def
      strict_neq_def)

section \<open>Properties of map\<close>

lemma map_array_length [simp]: "length (map_array cb d) = length d"
  by (simp add: map_array_def)

lemma map_loop_result:
  assumes "length (ref_data r) = ref_channels r" "\<forall>p \<in> set (ref_data r). p < length st"
    and "ch \<le> ref_channels r"
  shows "\<exists>ext. map_loop fn st r ch data
                = (data @ [length st ..< length st + (ref_channels r - ch)], st @ ext)
           \<and> length ext = ref_channels r - ch
           \<and> (\<forall>k < ref_channels r - ch. length (ext ! k) = length (st ! (ref_data r ! (ch + k))))"
  using assms
proof (induction fn st r ch data rule: map_loop.induct)
  case (1 fn st r ch data)
  show ?case
  proof (cases "ch < ref_channels r")
    case False
    then have "map_loop fn st r ch data = (data, st)"
      by (subst map_loop.simps) simp
    with False "1.prems" show ?thesis by simp
  next
    case True
    define arr where "arr = map_array
                        (\<lambda>value idx. fn (deref st r) value ch idx (map (\<lambda>p. st ! p) data))
                        (getChannelData (deref st r) ch)"
    have larr: "length arr = length (st ! (ref_data r ! ch))"
      using True "1.prems"(1) by (simp add: arr_def getChannelData_def deref_def)
    have step: "map_loop fn st r ch data = map_loop fn (st @ [arr]) r (ch + 1) (data @ [length st])"
      using True by (subst map_loop.simps) (simp add: arr_def Let_def)
    have "\<exists>ext. map_loop fn (st @ [arr]) r (ch + 1) (data @ [length st])
                = ((data @ [length st])
                     @ [length (st @ [arr]) ..< length (st @ [arr]) + (ref_channels r - (ch + 1))],
                   (st @ [arr]) @ ext)
           \<and> length ext = ref_channels r - (ch + 1)
           \<and> (\<forall>k < ref_channels r - (ch + 1).
                 length (ext ! k) = length ((st @ [arr]) ! (ref_data r ! (ch + 1 + k))))"
    proof (rule "1.IH"[OF True arr_def])
      show "length (ref_data r) = ref_channels r" by (rule "1.prems"(1))
      show "\<forall>p \<in> set (ref_data r). p < length (st @ [arr])" using "1.prems"(2) by auto
      show "ch + 1 \<le> ref_channels r" using True by simp
    qed
    then obtain ext where ext:
      "map_loop fn (st @ [arr]) r (ch + 1) (data @ [length st])
         = ((data @ [length st])
              @ [length (st @ [arr]) ..< length (st @ [arr]) + (ref_channels r - (ch + 1))],
            (st @ [arr]) @ ext)"
      "length ext = ref_channels r - (ch + 1)"
      "\<forall>k < ref_channels r - (ch + 1).
          length (ext ! k) = length ((st @ [arr]) ! (ref_data r ! (ch + 1 + k)))"
      by blast
    have idx: "(data @ [length st])
              @ [length (st @ [arr]) ..< length (st @ [arr]) + (ref_channels r - (ch + 1))]
            = data @ [length st ..< length st + (ref_channels r - ch)]"
    proof -
      have e1: "length (st @ [arr]) = Suc (length st)" by simp
      have e2: "Suc (length st) + (ref_channels r - (ch + 1)) = length st + (ref_channels r - ch)"
        using True by simp
      have h: "[length st ..< length st + (ref_channels r - ch)]
              = length st # [Suc (length st) ..< length st + (ref_channels r - ch)]"
        using True by (intro upt_conv_Cons) simp
      show ?thesis by (simp only: e1 e2 h append_assoc append_Cons append_Nil)
    qed
    have lens: "\<forall>k < ref_channels r - ch.
        length ((arr # ext) ! k) = length (st ! (ref_data r ! (ch + k)))"
    proof (intro allI impI)
      fix k assume k: "k < ref_channels r - ch"
      show "length ((arr # ext) ! k) = length (st ! (ref_data r ! (ch + k)))"
      proof (cases k)
        case 0
        then show ?thesis using larr by simp
      next
        case (Suc k')
        then have k': "k' < ref_channels r - (ch + 1)" using k by simp
        have "ref_data r ! (ch + 1 + k') \<in> set (ref_data r)"
          using k' "1.prems"(1) by simp
        then have "ref_data r ! (ch + 1 + k') < length st" using "1.prems"(2) by blast
        then show ?thesis using ext(3) k' Suc by (simp add: nth_append)
      qed
    qed
    have "map_loop fn st r ch data
            = (data @ [length st ..< length st + (ref_channels r - ch)], st @ (arr # ext))"
      using step ext(1) idx by simp
    moreover have "length (arr # ext) = ref_channels r - ch" using ext(2) True by simp
    ultimately show ?thesis using lens by blast
  qed
qed


text \<open>
  Claim C8. \<open>map(b, f)\<close> returns a buffer with the channel count, length and sample rate
  of \<open>b\<close>, built on arrays allocated by the call: their addresses did not exist before, so
  they are none of the arrays of \<open>b\<close>. Every array that existed before the call is
  unchanged after it; in particular \<open>b\<close> reads the same. The producer is a function of
  its arguments.
\<close>

theorem map_allocates_and_leaves_source:
  assumes "wf_buffer (deref st r)" "\<forall>p \<in> set (ref_data r). p < length st"
  shows "case map_buf st r fn of
           (r', st') \<Rightarrow>
             ref_channels r' = ref_channels r \<and> ref_length r' = ref_length r
             \<and> ref_rate r' = ref_rate r
             \<and> wf_buffer (deref st' r')
             \<and> take (length st) st' = st
             \<and> deref st' r = deref st r
             \<and> (\<forall>p \<in> set (ref_data r'). length st \<le> p \<and> p < length st')
             \<and> set (ref_data r') \<inter> set (ref_data r) = {}"
proof -
  let ?n = "ref_channels r"
  have n: "0 < ?n" and len: "length (ref_data r) = ?n"
    and all: "\<And>k. k < ?n \<Longrightarrow> length (st ! (ref_data r ! k)) = ref_length r"
    using assms(1) by (simp_all add: wf_buffer_def deref_def list_all_length)
  from map_loop_result[OF len assms(2), of 0 fn "[]"]
  obtain ext where ml: "map_loop fn st r 0 [] = ([length st ..< length st + ?n], st @ ext)"
    and le: "length ext = ?n"
    and ls: "\<And>k. k < ?n \<Longrightarrow> length (ext ! k) = ref_length r"
    using all by auto
  let ?data = "[length st ..< length st + ?n]"
  let ?st' = "st @ ext"
  let ?r' = "AudioBuffer_data_ref ?st' ?n ?data (ref_rate r)"
  have mb: "map_buf st r fn = (?r', ?st')" by (simp add: map_buf_def ml)
  have hd: "?data = length st # [Suc (length st) ..< length st + ?n]"
    using n by (intro upt_conv_Cons) simp
  have rl: "ref_length ?r' = ref_length r"
    using ls[of 0] n by (simp add: AudioBuffer_data_ref_def hd nth_append del: upt_Suc)
  have ch: "map (\<lambda>p. ?st' ! p) ?data = ext"
    by (rule nth_equalityI) (simp_all add: le nth_append)
  have wf: "wf_buffer (deref ?st' ?r')"
    using n le ls by (simp add: wf_buffer_def deref_def rl ch list_all_length)
       (simp add: AudioBuffer_data_ref_def ch)
  have same: "map (\<lambda>p. ?st' ! p) (ref_data r) = map (\<lambda>p. st ! p) (ref_data r)"
    using assms(2) by (intro map_cong refl) (simp add: nth_append)
  have "deref ?st' r = deref st r" by (simp add: deref_def same)
  moreover have "\<forall>p \<in> set (ref_data ?r'). length st \<le> p \<and> p < length ?st'"
    by (simp add: AudioBuffer_data_ref_def le)
  moreover have "set (ref_data ?r') \<inter> set (ref_data r) = {}"
    using assms(2) by (auto simp add: AudioBuffer_data_ref_def)
  moreover have "ref_channels ?r' = ?n" "ref_rate ?r' = ref_rate r"
    by (simp_all add: AudioBuffer_data_ref_def)
  ultimately show ?thesis using rl wf by (simp add: mb)
qed

theorem map_allocates_and_leaves_source_witness:
  "map_buf [[Num 1, Num 2], [Num 3, Num 4]]
      \<lparr>ref_channels = 2, ref_length = 2, ref_rate = 44100, ref_data = [0, 1]\<rparr>
      (\<lambda>this value channel idx data. case value of Num x \<Rightarrow> Num (- x) | _ \<Rightarrow> NaN)
     = (\<lparr>ref_channels = 2, ref_length = 2, ref_rate = 44100, ref_data = [2, 3]\<rparr>,
        [[Num 1, Num 2], [Num 3, Num 4], [Num (- 1), Num (- 2)], [Num (- 3), Num (- 4)]])
   \<and> deref [[Num 1, Num 2], [Num 3, Num 4], [Num (- 1), Num (- 2)], [Num (- 3), Num (- 4)]]
        \<lparr>ref_channels = 2, ref_length = 2, ref_rate = 44100, ref_data = [0, 1]\<rparr>
     = deref [[Num 1, Num 2], [Num 3, Num 4]]
        \<lparr>ref_channels = 2, ref_length = 2, ref_rate = 44100, ref_data = [0, 1]\<rparr>"
proof -
  let ?st = "[[Num 1, Num 2], [Num 3, Num 4]]"
  let ?r = "\<lparr>ref_channels = 2, ref_length = 2, ref_rate = 44100, ref_data = [0, 1]\<rparr>"
  let ?f = "\<lambda>(this :: buffer) value (channel :: nat) (idx :: nat) (data :: sample list list).
              case value of Num x \<Rightarrow> Num (- x) | _ \<Rightarrow> NaN"
  have ev: "map_buf ?st ?r ?f
     = (\<lparr>ref_channels = 2, ref_length = 2, ref_rate = 44100, ref_data = [2, 3]\<rparr>,
        [[Num 1, Num 2], [Num 3, Num 4], [Num (- 1), Num (- 2)], [Num (- 3), Num (- 4)]])"
    by (simp add: map_buf_def map_loop.simps map_array_def getChannelData_def deref_def
        AudioBuffer_data_ref_def numeral_2_eq_2 upt_rec)
  have wf: "wf_buffer (deref ?st ?r)" by (simp add: wf_buffer_def deref_def)
  have rng: "\<forall>p \<in> set (ref_data ?r). p < length ?st" by simp
  from map_allocates_and_leaves_source[OF wf rng, of ?f] ev
  show ?thesis by simp
qed

section \<open>rotate and shift on whole buffers, for the offsets they handle\<close>

text \<open>
  Above the channel length \<open>shift\<close> never returns; from 1 to the channel length it moves
  the samples up and keeps the leading ones; from minus the channel length on, \<open>rotate\<close>
  puts the sample of index \<open>i\<close> at \<open>(i + offset) mod l\<close>.
\<close>

lemma shift_diverges:
  assumes "wf_buffer b" "int (length_b b) < offset"
  shows "shift b offset = None"
proof -
  have "0 < numberOfChannels b" "length (chans b ! 0) = length_b b"
    using assms(1) wf_buffer_nth[OF assms(1), of 0] by (simp_all add: wf_buffer_def)
  then show ?thesis
    using assms(2)
    by (simp add: shift_def shift_channels.simps[of b offset 0] getChannelData_def
        shift_channel_diverges)
qed

lemma shift_right:
  assumes "wf_buffer b" "0 < offset" "offset \<le> int (length_b b)"
  shows "\<exists>r. shift b offset = Some r
           \<and> numberOfChannels r = numberOfChannels b \<and> length_b r = length_b b
           \<and> sampleRate r = sampleRate b
           \<and> (\<forall>c < numberOfChannels b. \<forall>j < length_b b.
                 chans r ! c ! j
                   = (if offset \<le> int j then chans b ! c ! nat (int j - offset) else chans b ! c ! j))"
proof -
  have len: "length (chans b) = numberOfChannels b"
    and all: "\<forall>d \<in> set (chans b). length d = length_b b"
    using assms(1) by (simp_all add: wf_buffer_def list_all_iff)
  define g where "g d = the (shift_channel d offset)" for d
  have g: "shift_channel d offset = Some (g d)
           \<and> (\<forall>j < length_b b. g d ! j
                  = (if offset \<le> int j then d ! nat (int j - offset) else d ! j))"
    if "d \<in> set (chans b)" for d
  proof -
    have "length d = length_b b" using all that by simp
    with shift_channel_right[of offset d] assms(2,3) show ?thesis by (auto simp add: g_def)
  qed
  have "shift b offset = Some (b\<lparr>chans := map g (chans b)\<rparr>)"
    using shift_channels_Some[OF len, of 0 offset g] g by (simp add: shift_def)
  moreover have "map g (chans b) ! c ! j
      = (if offset \<le> int j then chans b ! c ! nat (int j - offset) else chans b ! c ! j)"
    if "c < numberOfChannels b" "j < length_b b" for c j
    using that g[of "chans b ! c"] len by simp
  ultimately show ?thesis by simp
qed


lemma rotate_buf_nth:
  assumes "wf_buffer b" "- int (length_b b) \<le> offset"
    and "c < numberOfChannels b" "i < length_b b"
  shows "chans (rotate_buf b offset) ! c ! nat ((int i + offset) mod int (length_b b))
           = chans b ! c ! i"
proof -
  have len: "length (chans b) = numberOfChannels b" using assms(1) by (simp add: wf_buffer_def)
  have l: "length (chans b ! c) = length_b b" using assms(1,3) by (rule wf_buffer_nth)
  have "chans (rotate_buf b offset) ! c = rotate_channel (chans b ! c) offset"
    using assms(3) len by (simp add: rotate_buf_chans[OF len])
  then show ?thesis
    using rotate_channel_nth[of "chans b ! c" offset i] assms(2,4) l by simp
qed

end
